theory Spec2Isabelle
  imports Main "HOL-Library.Word" "HOL-Library.Multiset" "HOL-Library.Product_Lexorder"
    "HOL-Library.Sublist"
begin

unbundle bit_operations_syntax

section \<open>The canonical Huffman codec of huff.go\<close>

text \<open>
  Machine integers: \<open>uint32\<close> is \<open>32 word\<close>, \<open>uint64\<close> is \<open>64 word\<close>, a byte is
  \<open>8 word\<close>. Go's \<open>int\<close> is taken to be 64 bits wide: the weights of tree nodes are
  \<open>64 word\<close> compared as signed values, so that the sum of two weights wraps as it does
  in Go. Code lengths are \<open>int\<close>; where a length is converted or incremented in a way
  that can leave the 64-bit range, the wrap-around is written out with \<open>go_int\<close>.
\<close>

type_synonym u32 = "32 word"
type_synonym u64 = "64 word"
type_synonym byte = "8 word"

definition go_int :: "int \<Rightarrow> int" where
  "go_int x = signed_take_bit 63 x"

text \<open>
  \<open>make\<close> of a slice is the runtime's \<open>makeslice\<close>. It panics when the length is
  negative as an \<open>int\<close>, or when the size in bytes, the element size times the length,
  exceeds \<open>maxAlloc\<close>, which is \<open>2^48\<close> on the 64-bit platforms this model is written
  for. An allocation within that limit is taken to succeed: a runtime that cannot obtain
  the memory stops the process, and no function of this model describes that.
\<close>

definition maxAlloc :: int where
  "maxAlloc = 2 ^ 48"

definition make_panics :: "int \<Rightarrow> int \<Rightarrow> bool" where
  "make_panics elem_size n \<longleftrightarrow> n < 0 \<or> maxAlloc < elem_size * n"

datatype error =
    ErrInvalidCodebook
  | ErrUnknownSymbol
  | IoEOF
  | IoUnexpectedEOF
  | VarintOverflow
  | IoErr nat
  | PanicIndexOutOfRange
  | PanicMakeLen

definition EOF :: u32 where
  "EOF = 0xffffffff"

subsection \<open>Symbols and codebooks\<close>

record symbol =
  symbol_s :: u32
  symbol_code :: u32
  symbol_length :: int

type_synonym codebook = "symbol list"

definition zero_symbol :: symbol where
  "zero_symbol = \<lparr>symbol_s = 0, symbol_code = 0, symbol_length = 0\<rparr>"

text \<open>\<open>symptrs.Less\<close>, on the two symbols the pointers refer to.\<close>

definition Less :: "symbol \<Rightarrow> symbol \<Rightarrow> bool" where
  "Less a b = (symbol_length a < symbol_length b
               \<or> symbol_length a = symbol_length b \<and> symbol_s a < symbol_s b)"

definition symkey :: "symbol \<Rightarrow> int \<times> u32" where
  "symkey e = (symbol_length e, symbol_s e)"

text \<open>
  \<open>calculateCodes\<close>. A \<open>*symbol\<close> pointing into the codebook is the index of the
  slot it points to, and the codebook is the store the pointers are read and written
  through. \<open>sort.Sort\<close> orders the pointers by \<open>Less\<close>, which is the lexicographic
  order of \<open>symkey\<close>. The function returns the codebook as the loop leaves it, the
  symbols the sorted pointers refer to, and the length histogram.
  The second loop of the source is \<open>assign_loop\<close>: \<open>code\<close> and \<open>prevlen\<close> are its
  two variables. The shift count \<open>uint(length - prevlen)\<close> is computed only when
  \<open>length > prevlen\<close>, where it is the mathematical difference; a shift of a
  \<open>uint32\<close> by 32 or more gives 0, as \<open>push_bit\<close> on \<open>32 word\<close> does. The
  histogram is a \<open>[]uint32\<close>, of 4 bytes an element, so its \<open>make\<close> panics when the
  greatest length plus one is negative or exceeds \<open>2^46\<close>.
\<close>

fun assign_loop ::
  "nat list \<Rightarrow> codebook \<Rightarrow> u32 list \<Rightarrow> u32 \<Rightarrow> int \<Rightarrow> error + (codebook \<times> u32 list)" where
  "assign_loop [] c numl code prevlen = Inr (c, numl)"
| "assign_loop (p # ps) c numl code prevlen =
     (let l = symbol_length (c ! p);
          code1 = (if l > prevlen then push_bit (nat (l - prevlen)) code else code);
          prevlen1 = (if l > prevlen then l else prevlen)
      in if l < 0 \<or> int (length numl) \<le> l then Inl PanicIndexOutOfRange
         else assign_loop ps
                (c[p := (c ! p)\<lparr>symbol_code := code1\<rparr>])
                (numl[nat l := numl ! nat l + 1])
                (code1 + 1) prevlen1)"

definition sorted_ptrs :: "codebook \<Rightarrow> nat list" where
  "sorted_ptrs c =
     sort_key (\<lambda>i. symkey (c ! i)) (filter (\<lambda>i. symbol_length (c ! i) \<noteq> 0) [0..<length c])"

definition calculateCodes :: "codebook \<Rightarrow> error + (codebook \<times> symbol list \<times> u32 list)" where
  "calculateCodes c =
     (let sptrs = sorted_ptrs c
      in if sptrs = [] then Inl PanicIndexOutOfRange
         else let n = go_int (symbol_length (c ! last sptrs) + 1)
              in if make_panics 4 n then Inl PanicMakeLen
                 else (case assign_loop sptrs c (replicate (nat n) 0) 0 (- 1) of
                         Inl e \<Rightarrow> Inl e
                       | Inr (c', numl) \<Rightarrow> Inr (c', map (\<lambda>i. c' ! i) sptrs, numl)))"

subsection \<open>Variable-length integers (encoding/binary)\<close>

text \<open>
  \<open>binary.PutUvarint\<close> and \<open>binary.ReadUvarint\<close> belong to Go's standard library.
  \<open>uvarint_bytes\<close> is the byte sequence \<open>PutUvarint\<close> produces; \<open>PutUvarint\<close> panics
  when the buffer it is given is shorter than that. \<open>ReadUvarint\<close> reads at most ten
  bytes from the front of the remaining input and returns the rest.
\<close>

function uvarint_bytes :: "u64 \<Rightarrow> byte list" where
  "uvarint_bytes x =
     (if 0x80 \<le> x then (ucast x OR 0x80) # uvarint_bytes (drop_bit 7 x) else [ucast x])"
  by pat_completeness auto
termination
proof (relation "measure unat")
  show "wf (measure unat)" by simp
next
  fix x :: u64
  assume "0x80 \<le> x"
  then have "0 < unat x" by (simp add: word_le_nat_alt)
  then have "unat x div 2 ^ 7 < unat x" by simp
  then show "(drop_bit 7 x, x) \<in> measure unat"
    by (simp add: drop_bit_eq_div unat_div)
qed

declare uvarint_bytes.simps [simp del]

definition PutUvarint :: "nat \<Rightarrow> u64 \<Rightarrow> error + byte list" where
  "PutUvarint buflen x =
     (let b = uvarint_bytes x in if buflen < length b then Inl PanicIndexOutOfRange else Inr b)"

fun ReadUvarint_loop :: "nat \<Rightarrow> u64 \<Rightarrow> nat \<Rightarrow> byte list \<Rightarrow> (error + u64) \<times> byte list" where
  "ReadUvarint_loop i x sh [] =
     (Inl (if 10 \<le> i then VarintOverflow else if 0 < i then IoUnexpectedEOF else IoEOF), [])"
| "ReadUvarint_loop i x sh (b # rest) =
     (if 10 \<le> i then (Inl VarintOverflow, b # rest)
      else if b < 0x80 then
        (if i = 9 \<and> 1 < b then (Inl VarintOverflow, rest)
         else (Inr (x OR push_bit sh (ucast b)), rest))
      else ReadUvarint_loop (i + 1) (x OR push_bit sh (ucast (b AND 0x7f))) (sh + 7) rest)"

definition ReadUvarint :: "byte list \<Rightarrow> (error + u64) \<times> byte list" where
  "ReadUvarint data = ReadUvarint_loop 0 0 0 data"

subsection \<open>Codebook serialization\<close>

definition MaxVarintLen32 :: nat where
  "MaxVarintLen32 = 5"

fun marshal_lengths :: "codebook \<Rightarrow> byte list \<Rightarrow> error + byte list" where
  "marshal_lengths [] b = Inr b"
| "marshal_lengths (e # es) b =
     (case PutUvarint MaxVarintLen32 (word_of_int (symbol_length e)) of
        Inl err \<Rightarrow> Inl err
      | Inr v \<Rightarrow> marshal_lengths es (b @ v))"

definition MarshalBinary :: "codebook \<Rightarrow> error + byte list" where
  "MarshalBinary c =
     (case PutUvarint MaxVarintLen32 (of_nat (length c)) of
        Inl err \<Rightarrow> Inl err
      | Inr v \<Rightarrow> marshal_lengths c v)"

text \<open>
  \<open>UnmarshalBinary\<close>: the loop runs \<open>uint32(l)\<close> times, \<open>k\<close> counting the iterations
  that remain and \<open>i\<close> being the loop variable. A \<open>symbol\<close> takes 16 bytes (two
  \<open>uint32\<close> fields and an \<open>int\<close>), so \<open>make(codebook, l)\<close> panics when \<open>l\<close> does not
  fit an \<open>int\<close> or exceeds \<open>2^44\<close>.
\<close>

fun unmarshal_loop :: "nat \<Rightarrow> nat \<Rightarrow> codebook \<Rightarrow> byte list \<Rightarrow> error + codebook" where
  "unmarshal_loop 0 i c data = Inr c"
| "unmarshal_loop (Suc k) i c data =
     (case ReadUvarint data of
        (Inl err, rest) \<Rightarrow> Inl ErrInvalidCodebook
      | (Inr clen, rest) \<Rightarrow>
          unmarshal_loop k (i + 1)
            (c[i := \<lparr>symbol_s = of_nat i, symbol_code = 0, symbol_length = sint clen\<rparr>]) rest)"

definition UnmarshalBinary :: "byte list \<Rightarrow> error + codebook" where
  "UnmarshalBinary data =
     (case ReadUvarint data of
        (Inl err, rest) \<Rightarrow> Inl ErrInvalidCodebook
      | (Inr l, rest) \<Rightarrow>
          if make_panics 16 (sint l) then Inl PanicMakeLen
          else unmarshal_loop (unat (ucast l :: u32)) 0 (replicate (unat l) zero_symbol) rest)"

subsection \<open>The tree builder\<close>

text \<open>
  A \<open>node\<close> is either a leaf (\<open>leaf = true\<close>, no children) or an internal node with
  both children set; \<open>NewEncoder\<close> builds no other. The heap is the slice \<open>nodes\<close>
  with \<open>container/heap\<close>'s \<open>Push\<close> and \<open>Pop\<close>, written out with their \<open>up\<close> and
  \<open>down\<close> loops over \<open>nodes.Less\<close> and \<open>nodes.Swap\<close>.
\<close>

datatype node =
    Leaf (weight: u64) (sym: u32)
  | Inner (weight: u64) (child0: node) (child1: node)

type_synonym nodes = "node list"

definition nodes_Less :: "nodes \<Rightarrow> nat \<Rightarrow> nat \<Rightarrow> bool" where
  "nodes_Less n i j = word_sless (weight (n ! i)) (weight (n ! j))"

definition nodes_Swap :: "nodes \<Rightarrow> nat \<Rightarrow> nat \<Rightarrow> nodes" where
  "nodes_Swap n i j = n[i := n ! j, j := n ! i]"

function up :: "nodes \<Rightarrow> nat \<Rightarrow> nodes" where
  "up h j =
     (let i = (j - 1) div 2
      in if i = j \<or> \<not> nodes_Less h j i then h else up (nodes_Swap h i j) i)"
  by pat_completeness auto
termination
  by (relation "measure (\<lambda>(h, j). j)") auto

function down :: "nodes \<Rightarrow> nat \<Rightarrow> nat \<Rightarrow> nodes" where
  "down h i n =
     (let j1 = 2 * i + 1
      in if n \<le> j1 then h
         else let j = (if j1 + 1 < n \<and> nodes_Less h (j1 + 1) j1 then j1 + 1 else j1)
              in if \<not> nodes_Less h j i then h else down (nodes_Swap h i j) j n)"
  by pat_completeness auto
termination
  by (relation "measure (\<lambda>(h, i, n). n - i)") (auto split: if_splits)

declare up.simps [simp del] down.simps [simp del]

definition heap_Push :: "nodes \<Rightarrow> node \<Rightarrow> nodes" where
  "heap_Push h x = up (h @ [x]) (length h)"

definition heap_Pop :: "nodes \<Rightarrow> node \<times> nodes" where
  "heap_Pop h =
     (let n = length h - 1;
          h1 = down (nodes_Swap h 0 n) 0 n
      in (last h1, butlast h1))"

fun push_counts :: "nat \<Rightarrow> u64 list \<Rightarrow> nodes \<Rightarrow> nodes" where
  "push_counts i [] n = n"
| "push_counts i (v # vs) n =
     push_counts (i + 1) vs (if v \<noteq> 0 then heap_Push n (Leaf v (of_nat i)) else n)"

lemma length_nodes_Swap [simp]: "length (nodes_Swap h i j) = length h"
  by (simp add: nodes_Swap_def)

lemma length_up [simp]: "length (up h j) = length h"
proof (induction h j rule: up.induct)
  case (1 h j)
  show ?case
  proof (cases "(j - 1) div 2 = j \<or> \<not> nodes_Less h j ((j - 1) div 2)")
    case True
    then show ?thesis by (subst up.simps) auto
  next
    case False
    with 1 show ?thesis by (subst up.simps) (simp add: Let_def)
  qed
qed

lemma length_down [simp]: "length (down h i n) = length h"
proof (induction h i n rule: down.induct)
  case (1 h i n)
  show ?case
    using 1 by (subst down.simps) (simp add: Let_def)
qed

lemma length_heap_Push [simp]: "length (heap_Push h x) = Suc (length h)"
  by (simp add: heap_Push_def)

lemma length_heap_Pop [simp]: "length (snd (heap_Pop h)) = length h - 1"
  by (simp add: heap_Pop_def Let_def)

text \<open>The merge loop of \<open>NewEncoder\<close>: \<open>for n.Len() > 1\<close>.\<close>

function build :: "nodes \<Rightarrow> nodes" where
  "build n =
     (if 1 < length n then
        (let (n1, h1) = heap_Pop n;
             (n2, h2) = heap_Pop h1
         in build (heap_Push h2 (Inner (weight n1 + weight n2) n2 n1)))
      else n)"
  by pat_completeness auto
termination
proof (relation "measure length")
  show "wf (measure length)" by simp
next
  fix n :: nodes and x n1 h1 y n2 h2
  assume "1 < length n" "x = heap_Pop n" "(n1, h1) = x" "y = heap_Pop h1" "(n2, h2) = y"
  then have "length h1 = length n - 1" "length h2 = length h1 - 1"
    by (metis length_heap_Pop snd_conv)+
  with \<open>1 < length n\<close>
  show "(heap_Push h2 (Inner (weight n1 + weight n2) n2 n1), n) \<in> measure length"
    by simp
qed

declare build.simps [simp del]

text \<open>
  \<open>walk\<close> writes each leaf's depth into the codebook slot of its symbol; a symbol
  beyond the codebook is an index out of range. The depth of a leaf is below the number
  of nodes, so \<open>depth + 1\<close> does not leave the range of \<open>int\<close>.
\<close>

fun walk :: "node \<Rightarrow> int \<Rightarrow> codebook \<Rightarrow> error + codebook" where
  "walk (Leaf w sy) depth m =
     (if unat sy < length m
      then Inr (m[unat sy := \<lparr>symbol_s = sy, symbol_code = 0, symbol_length = depth\<rparr>])
      else Inl PanicIndexOutOfRange)"
| "walk (Inner w c0 c1) depth m =
     (case walk c0 (depth + 1) m of
        Inl err \<Rightarrow> Inl err
      | Inr m1 \<Rightarrow> walk c1 (depth + 1) m1)"

subsection \<open>Encoder, Writer, Decoder\<close>

record Encoder =
  e_eof :: u32
  e_m :: codebook
  e_sym :: "symbol list"
  e_numl :: "u32 list"

definition NewEncoder :: "u64 list \<Rightarrow> error + Encoder" where
  "NewEncoder counts =
     (let n0 = push_counts 0 counts [];
          eof = (of_nat (length counts) :: u32);
          n = build (heap_Push n0 (Leaf 0 eof));
          m = replicate (unat (eof + 1)) zero_symbol
      in case walk (n ! 0) 0 m of
           Inl err \<Rightarrow> Inl err
         | Inr m1 \<Rightarrow>
             (case calculateCodes m1 of
                Inl err \<Rightarrow> Inl err
              | Inr (m2, sptrs, numl) \<Rightarrow>
                  Inr \<lparr>e_eof = eof, e_m = m2, e_sym = sptrs, e_numl = numl\<rparr>))"

definition SymbolLen :: "Encoder \<Rightarrow> u32 \<Rightarrow> int" where
  "SymbolLen e s0 =
     (let s = (if s0 = EOF then e_eof e else s0)
      in if of_nat (length (e_m e)) \<le> s then 0 else symbol_length (e_m e ! unat s))"

definition CodebookBytes :: "Encoder \<Rightarrow> error + byte list" where
  "CodebookBytes e = MarshalBinary (e_m e)"

text \<open>
  The bit stream (\<open>bitstream.BitWriter\<close>, \<open>bitstream.BitReader\<close>) is an external
  collaborator. Its operations are parameters of the codec: a writer of type \<open>'w\<close>
  comes with \<open>WriteBits\<close> and \<open>Flush\<close>, each returning the error it reports (if
  any) and the new state of the stream; a reader of type \<open>'r\<close> comes with \<open>ReadBit\<close>.
\<close>

record 'w BitWriterOps =
  WriteBits :: "u64 \<Rightarrow> int \<Rightarrow> 'w \<Rightarrow> error option \<times> 'w"
  Flush :: "bool \<Rightarrow> 'w \<Rightarrow> error option \<times> 'w"

record 'w Writer =
  w_e :: Encoder
  w_BitWriter :: 'w
  w_closed :: bool

definition Encoder_Writer :: "Encoder \<Rightarrow> 'w \<Rightarrow> 'w Writer" where
  "Encoder_Writer e bw = \<lparr>w_e = e, w_BitWriter = bw, w_closed = False\<rparr>"

definition Zero :: bool where
  "Zero = False"

definition WriteSymbol ::
  "'w BitWriterOps \<Rightarrow> 'w Writer \<Rightarrow> u32 \<Rightarrow> (error + int) \<times> 'w Writer" where
  "WriteSymbol ops w s0 =
     (let s = (if s0 = EOF then e_eof (w_e w) else s0)
      in if e_eof (w_e w) < s then (Inl ErrUnknownSymbol, w)
         else if length (e_m (w_e w)) \<le> unat s then (Inl PanicIndexOutOfRange, w)
         else let sy = e_m (w_e w) ! unat s;
                  (err, bw) = WriteBits ops (ucast (symbol_code sy)) (symbol_length sy)
                                (w_BitWriter w)
              in (Inr (symbol_length sy), w\<lparr>w_BitWriter := bw\<rparr>))"

definition Close :: "'w BitWriterOps \<Rightarrow> 'w Writer \<Rightarrow> 'w Writer" where
  "Close ops w =
     (if w_closed w then w
      else let (err, bw) = Flush ops Zero (w_BitWriter w) in w\<lparr>w_BitWriter := bw\<rparr>)"

record Decoder =
  d_eof :: u32
  d_numl :: "u32 list"
  d_sym :: "symbol list"

definition Encoder_Decoder :: "Encoder \<Rightarrow> Decoder" where
  "Encoder_Decoder e = \<lparr>d_eof = e_eof e, d_numl = e_numl e, d_sym = e_sym e\<rparr>"

definition NewDecoder :: "byte list \<Rightarrow> error + Decoder" where
  "NewDecoder cb =
     (case UnmarshalBinary cb of
        Inl err \<Rightarrow> Inl err
      | Inr c \<Rightarrow>
          (case calculateCodes c of
             Inl err \<Rightarrow> Inl err
           | Inr (c', sptrs, numl) \<Rightarrow>
               Inr \<lparr>d_eof = of_nat (length c) - 1, d_numl = numl, d_sym = sptrs\<rparr>))"

text \<open>
  \<open>ReadSymbol\<close>: \<open>i\<close>, \<open>offset\<close> and \<open>code\<close> are the variables of the loop. Every slice
  access that can leave its bounds is checked in the order the source performs it.
\<close>

function ReadSymbol_loop ::
  "('r \<Rightarrow> (error + bool) \<times> 'r) \<Rightarrow> Decoder \<Rightarrow> nat \<Rightarrow> u32 \<Rightarrow> u32 \<Rightarrow> 'r \<Rightarrow> (error + u32) \<times> 'r"
  where
  "ReadSymbol_loop ReadBit d i offset code br =
     (if i < length (d_numl d) then
        (case ReadBit br of
           (Inl err, br1) \<Rightarrow> (Inl err, br1)
         | (Inr b, br1) \<Rightarrow>
             (let code1 = (if b then push_bit 1 code OR 1 else push_bit 1 code);
                  offset1 = offset + d_numl d ! i
              in if length (d_sym d) \<le> unat offset1 then (Inl PanicIndexOutOfRange, br1)
                 else let first = symbol_code (d_sym d ! unat offset1)
                      in if length (d_numl d) \<le> i + 1 then (Inl PanicIndexOutOfRange, br1)
                         else if code1 - first < d_numl d ! (i + 1) then
                           (if length (d_sym d) \<le> unat (code1 - first + offset1)
                            then (Inl PanicIndexOutOfRange, br1)
                            else let s = symbol_s (d_sym d ! unat (code1 - first + offset1))
                                 in (Inr (if s = d_eof d then EOF else s), br1))
                         else ReadSymbol_loop ReadBit d (i + 1) offset1 code1 br1))
      else (Inl ErrUnknownSymbol, br))"
  by pat_completeness auto
termination
  by (relation "measure (\<lambda>(ReadBit, d, i, offset, code, br). length (d_numl d) - i)") auto

declare ReadSymbol_loop.simps [simp del]

definition ReadSymbol ::
  "('r \<Rightarrow> (error + bool) \<times> 'r) \<Rightarrow> Decoder \<Rightarrow> 'r \<Rightarrow> (error + u32) \<times> 'r" where
  "ReadSymbol ReadBit d br = ReadSymbol_loop ReadBit d 0 0 0 br"

subsection \<open>A bit stream\<close>

text \<open>
  Modelled from the spec: the bit stream of section 6, which is not part of this
  repository. A writer accepts the \<open>n\<close> least significant bits of a value, most
  significant bit first, and its flush pads the final partial byte with the given bit; a
  reader returns one bit at a time and reports the end of the stream. The state of the
  writer is the sequence of bits it has accepted, the state of the reader the bits that
  remain.
\<close>

definition bits_of :: "u64 \<Rightarrow> int \<Rightarrow> bool list" where
  "bits_of u n = map (bit u) (rev [0..<nat n])"

definition bits_WriteBits :: "u64 \<Rightarrow> int \<Rightarrow> bool list \<Rightarrow> error option \<times> bool list" where
  "bits_WriteBits u n st = (None, st @ bits_of u n)"

definition bits_Flush :: "bool \<Rightarrow> bool list \<Rightarrow> error option \<times> bool list" where
  "bits_Flush b st = (None, st @ replicate ((8 - length st mod 8) mod 8) b)"

definition bit_writer :: "bool list BitWriterOps" where
  "bit_writer = \<lparr>WriteBits = bits_WriteBits, Flush = bits_Flush\<rparr>"

fun bits_ReadBit :: "bool list \<Rightarrow> (error + bool) \<times> bool list" where
  "bits_ReadBit [] = (Inl IoEOF, [])"
| "bits_ReadBit (b # bs) = (Inr b, bs)"

text \<open>
  Two further writers, used to observe what the codec asks of its stream: one records
  every call made on it, the other refuses every write with an error of the transport.
\<close>

datatype stream_call = Call_WriteBits u64 int | Call_Flush bool

definition recording_writer :: "stream_call list BitWriterOps" where
  "recording_writer =
     \<lparr>WriteBits = (\<lambda>u n st. (None, st @ [Call_WriteBits u n])),
      Flush = (\<lambda>b st. (None, st @ [Call_Flush b]))\<rparr>"

definition failing_writer :: "nat \<Rightarrow> unit BitWriterOps" where
  "failing_writer k =
     \<lparr>WriteBits = (\<lambda>u n st. (Some (IoErr k), st)),
      Flush = (\<lambda>b st. (Some (IoErr k), st))\<rparr>"

subsection \<open>Writing and reading sequences of symbols\<close>

text \<open>
  \<open>write_symbols\<close> calls \<open>WriteSymbol\<close> on each symbol in turn and stops at the
  first error; it returns the numbers of bits the calls report. \<open>read_symbols\<close> calls
  \<open>ReadSymbol\<close> a given number of times. \<open>encode\<close> writes a sequence to a fresh
  stream and closes the writer; \<open>decode\<close> reads a given number of symbols back.
\<close>

fun write_symbols ::
  "'w BitWriterOps \<Rightarrow> 'w Writer \<Rightarrow> u32 list \<Rightarrow> (error + int list) \<times> 'w Writer" where
  "write_symbols ops w [] = (Inr [], w)"
| "write_symbols ops w (s # ss) =
     (case WriteSymbol ops w s of
        (Inl err, w1) \<Rightarrow> (Inl err, w1)
      | (Inr n, w1) \<Rightarrow>
          (case write_symbols ops w1 ss of
             (Inl err, w2) \<Rightarrow> (Inl err, w2)
           | (Inr ns, w2) \<Rightarrow> (Inr (n # ns), w2)))"

fun read_symbols ::
  "('r \<Rightarrow> (error + bool) \<times> 'r) \<Rightarrow> Decoder \<Rightarrow> nat \<Rightarrow> 'r \<Rightarrow> (error + u32 list) \<times> 'r" where
  "read_symbols ReadBit d 0 br = (Inr [], br)"
| "read_symbols ReadBit d (Suc k) br =
     (case ReadSymbol ReadBit d br of
        (Inl err, br1) \<Rightarrow> (Inl err, br1)
      | (Inr s, br1) \<Rightarrow>
          (case read_symbols ReadBit d k br1 of
             (Inl err, br2) \<Rightarrow> (Inl err, br2)
           | (Inr ss, br2) \<Rightarrow> (Inr (s # ss), br2)))"

definition encode :: "Encoder \<Rightarrow> u32 list \<Rightarrow> error + bool list" where
  "encode e ss =
     (case write_symbols bit_writer (Encoder_Writer e []) ss of
        (Inl err, w) \<Rightarrow> Inl err
      | (Inr ns, w) \<Rightarrow> Inr (w_BitWriter (Close bit_writer w)))"

definition decode :: "Decoder \<Rightarrow> nat \<Rightarrow> bool list \<Rightarrow> error + u32 list" where
  "decode d k bits = fst (read_symbols bits_ReadBit d k bits)"

subsection \<open>Well-formed and truncated varints\<close>

text \<open>
  A complete varint is a non-empty run of bytes of which exactly the last has its
  continuation bit clear, at most ten bytes long and not overflowing 64 bits. A truncated
  varint is what is left of one when the input ends before that last byte: fewer than ten
  bytes, each with the continuation bit set (the empty input included).
\<close>

definition truncated_varint :: "byte list \<Rightarrow> bool" where
  "truncated_varint t = (list_all (\<lambda>b. 0x80 \<le> b) t \<and> length t < 10)"

definition complete_varint :: "byte list \<Rightarrow> bool" where
  "complete_varint v =
     (v \<noteq> [] \<and> list_all (\<lambda>b. 0x80 \<le> b) (butlast v) \<and> last v < 0x80
      \<and> length v \<le> 10 \<and> (length v = 10 \<longrightarrow> last v \<le> 1))"

subsection \<open>Canonical codes as numbers and as bit strings\<close>

fun code_seq :: "u32 \<Rightarrow> int \<Rightarrow> int list \<Rightarrow> u32 list" where
  "code_seq code prevlen [] = []"
| "code_seq code prevlen (l # ls) =
     (let code1 = (if l > prevlen then push_bit (nat (l - prevlen)) code else code)
      in code1 # code_seq (code1 + 1) (if l > prevlen then l else prevlen) ls)"

fun ncode_seq :: "nat \<Rightarrow> nat \<Rightarrow> nat list \<Rightarrow> nat list" where
  "ncode_seq a p [] = []"
| "ncode_seq a p (l # ls) =
     (let a1 = (if p < l then a * 2 ^ (l - p) else a)
      in a1 # ncode_seq (a1 + 1) (if p < l then l else p) ls)"

definition wsum :: "nat list \<Rightarrow> nat \<Rightarrow> nat" where
  "wsum ls j = sum_list (map (\<lambda>l. 2 ^ (32 - l)) (take j ls))"

definition nc :: "nat list \<Rightarrow> nat \<Rightarrow> nat" where
  "nc ls j = ncode_seq 0 0 ls ! j"

definition below :: "nat list \<Rightarrow> nat \<Rightarrow> nat" where
  "below ls i = length (filter (\<lambda>l. l < i) ls)"

definition canon :: "nat list \<Rightarrow> symbol list \<Rightarrow> u32 list \<Rightarrow> bool" where
  "canon ls syms numl \<longleftrightarrow>
     sorted ls \<and> (\<forall>l\<in>set ls. 1 \<le> l \<and> l \<le> 32 \<and> l < length numl)
     \<and> sum_list (map (\<lambda>l. 2 ^ (32 - l)) ls) \<le> (2::nat) ^ 32
     \<and> length syms = length ls
     \<and> (\<forall>j<length ls. symbol_length (syms ! j) = int (ls ! j)
                       \<and> symbol_code (syms ! j) = of_nat (nc ls j))
     \<and> (\<forall>k<length numl. numl ! k = of_nat (count_list ls k))"

definition sym_out :: "Decoder \<Rightarrow> u32 \<Rightarrow> u32" where
  "sym_out d s = (if s = d_eof d then EOF else s)"

definition kraft32 :: "codebook \<Rightarrow> nat" where
  "kraft32 c = sum_list (map (\<lambda>e. 2 ^ (32 - nat (symbol_length e)))
                          (filter (\<lambda>e. symbol_length e \<noteq> 0) c))"

definition lens_of :: "codebook \<Rightarrow> nat list" where
  "lens_of c = map (\<lambda>i. nat (symbol_length (c ! i))) (sorted_ptrs c)"

definition code_bits :: "symbol \<Rightarrow> bool list" where
  "code_bits e = bits_of (ucast (symbol_code e)) (symbol_length e)"

definition bl :: "nat \<Rightarrow> nat \<Rightarrow> bool list" where
  "bl x l = map (bit x) (rev [0..<l])"

subsection \<open>The leaves of the tree and the codebook they give\<close>

fun leaves :: "node \<Rightarrow> node list" where
  "leaves (Leaf w s) = [Leaf w s]"
| "leaves (Inner w a b) = leaves a @ leaves b"

definition forest_leaves :: "nodes \<Rightarrow> node multiset" where
  "forest_leaves h = sum_mset (image_mset (\<lambda>t. mset (leaves t)) (mset h))"

fun count_leaves :: "nat \<Rightarrow> u64 list \<Rightarrow> node list" where
  "count_leaves i [] = []"
| "count_leaves i (v # vs) =
     (if v \<noteq> 0 then [Leaf v (of_nat i)] else []) @ count_leaves (i + 1) vs"

definition down_child :: "nodes \<Rightarrow> nat \<Rightarrow> nat \<Rightarrow> nat" where
  "down_child h i n =
     (if 2 * i + 1 + 1 < n \<and> nodes_Less h (2 * i + 1 + 1) (2 * i + 1) then 2 * i + 1 + 1
      else 2 * i + 1)"

fun ld :: "node \<Rightarrow> nat \<Rightarrow> (u32 \<times> nat) list" where
  "ld (Leaf w s) d = [(s, d)]"
| "ld (Inner w a b) d = ld a (d + 1) @ ld b (d + 1)"

definition set_slot :: "u32 \<times> nat \<Rightarrow> codebook \<Rightarrow> codebook" where
  "set_slot x m =
     m[unat (fst x) := \<lparr>symbol_s = fst x, symbol_code = 0, symbol_length = int (snd x)\<rparr>]"

definition huff_tree :: "u64 list \<Rightarrow> node" where
  "huff_tree counts =
     build (heap_Push (push_counts 0 counts []) (Leaf 0 (of_nat (length counts)))) ! 0"

definition walked :: "u64 list \<Rightarrow> codebook" where
  "walked counts =
     fold set_slot (ld (huff_tree counts) 0) (replicate (length counts + 1) zero_symbol)"

subsection \<open>Codebooks as they are serialized\<close>

definition entry_of :: "nat \<Rightarrow> int \<Rightarrow> symbol" where
  "entry_of j l = \<lparr>symbol_s = of_nat j, symbol_code = 0, symbol_length = l\<rparr>"

definition reindexed :: "codebook \<Rightarrow> codebook" where
  "reindexed c = map (\<lambda>j. entry_of j (symbol_length (c ! j))) [0..<length c]"

definition length_bytes :: "codebook \<Rightarrow> byte list" where
  "length_bytes c = concat (map (\<lambda>e. uvarint_bytes (word_of_int (symbol_length e))) c)"

subsection \<open>Heaps and trees of the merge loop\<close>

text \<open>
  \<open>nodes.Less\<close> compares weights as signed integers: \<open>wt\<close> is that reading. A slice is
  a heap on its first \<open>n\<close> slots when no slot weighs less than its parent; \<open>up_inv\<close> and
  \<open>down_inv\<close> are what the loops of \<open>up\<close> and \<open>down\<close> keep while slot \<open>j\<close> (or
  \<open>i\<close>) is still on its way.
\<close>

definition wt :: "node \<Rightarrow> int" where
  "wt t = sint (weight t)"

definition parent :: "nat \<Rightarrow> nat" where
  "parent k = (k - 1) div 2"

definition heap_upto :: "nodes \<Rightarrow> nat \<Rightarrow> bool" where
  "heap_upto h n \<longleftrightarrow> (\<forall>k. 0 < k \<and> k < n \<longrightarrow> wt (h ! parent k) \<le> wt (h ! k))"

definition up_inv :: "nodes \<Rightarrow> nat \<Rightarrow> bool" where
  "up_inv h j \<longleftrightarrow>
     (\<forall>k. 0 < k \<and> k < length h \<and> k \<noteq> j \<longrightarrow> wt (h ! parent k) \<le> wt (h ! k))
     \<and> (\<forall>k. 0 < k \<and> k < length h \<and> parent k = j \<and> 0 < j \<longrightarrow> wt (h ! parent j) \<le> wt (h ! k))"

definition down_inv :: "nodes \<Rightarrow> nat \<Rightarrow> nat \<Rightarrow> bool" where
  "down_inv h i n \<longleftrightarrow>
     (\<forall>k. 0 < k \<and> k < n \<and> parent k \<noteq> i \<longrightarrow> wt (h ! parent k) \<le> wt (h ! k))
     \<and> (\<forall>k. 0 < k \<and> k < n \<and> parent k = i \<and> 0 < i \<longrightarrow> wt (h ! parent i) \<le> wt (h ! k))"

text \<open>
  \<open>expand s a b\<close> puts the node with children \<open>a\<close> and \<open>b\<close> in place of the leaf of
  symbol \<open>s\<close> and keeps every weight; \<open>nd\<close> lists the nodes of a tree with their
  depths; a tree is \<open>Mono\<close> when a heavier node is never deeper than a lighter one, and
  \<open>wsum_ok\<close> when the weight of every inner node is the sum, in the integers, of its
  children's weights.
\<close>

fun expand :: "u32 \<Rightarrow> node \<Rightarrow> node \<Rightarrow> node \<Rightarrow> node" where
  "expand s a b (Leaf w s') = (if s' = s then Inner w a b else Leaf w s')"
| "expand s a b (Inner w l r) = Inner w (expand s a b l) (expand s a b r)"

fun nd :: "node \<Rightarrow> nat \<Rightarrow> (node \<times> nat) list" where
  "nd (Leaf w s) d = [(Leaf w s, d)]"
| "nd (Inner w a b) d = (Inner w a b, d) # nd a (d + 1) @ nd b (d + 1)"

definition Mono :: "node \<Rightarrow> bool" where
  "Mono t \<longleftrightarrow>
     (\<forall>x\<in>set (nd t 0). \<forall>y\<in>set (nd t 0). wt (fst y) < wt (fst x) \<longrightarrow> snd x \<le> snd y)"

fun wsum_ok :: "node \<Rightarrow> bool" where
  "wsum_ok (Leaf w s) = True"
| "wsum_ok (Inner w a b) = (sint w = wt a + wt b \<and> wsum_ok a \<and> wsum_ok b)"

section \<open>Properties\<close>

subsection \<open>Canonicalization needs a symbol of nonzero length\<close>

lemma set_sorted_ptrs:
  "set (sorted_ptrs c) = {i. i < length c \<and> symbol_length (c ! i) \<noteq> 0}"
  by (auto simp: sorted_ptrs_def)

lemma sorted_ptrs_Nil_iff:
  "sorted_ptrs c = [] \<longleftrightarrow> (\<forall>e\<in>set c. symbol_length e = 0)"
proof -
  have "sorted_ptrs c = [] \<longleftrightarrow> set (sorted_ptrs c) = {}" by simp
  also have "\<dots> \<longleftrightarrow> (\<forall>i<length c. symbol_length (c ! i) = 0)"
    by (auto simp: set_sorted_ptrs)
  also have "\<dots> \<longleftrightarrow> (\<forall>e\<in>set c. symbol_length e = 0)"
    by (metis in_set_conv_nth nth_mem)
  finally show ?thesis .
qed

lemma calculateCodes_all_zero:
  "\<forall>e\<in>set c. symbol_length e = 0 \<Longrightarrow> calculateCodes c = Inl PanicIndexOutOfRange"
  by (simp add: calculateCodes_def sorted_ptrs_Nil_iff)

lemma push_counts_all_zero:
  "\<forall>v\<in>set counts. v = 0 \<Longrightarrow> push_counts i counts n = n"
  by (induction counts arbitrary: i) auto

lemma heap_Push_Nil: "heap_Push [] x = [x]"
  by (simp add: heap_Push_def up.simps)

lemma build_single: "build [x] = [x]"
  by (simp add: build.simps)

lemma build_all_zero:
  "\<forall>v\<in>set counts. v = 0 \<Longrightarrow>
   build (heap_Push (push_counts 0 counts []) (Leaf 0 eof)) = [Leaf 0 eof]"
  by (simp add: push_counts_all_zero heap_Push_Nil build_single)

lemma NewEncoder_all_zero:
  assumes "\<forall>v\<in>set counts. v = 0"
  shows "NewEncoder counts = Inl PanicIndexOutOfRange"
proof -
  let ?eof = "of_nat (length counts) :: u32"
  let ?m = "replicate (unat (?eof + 1)) zero_symbol"
  note n = build_all_zero [OF assms, of ?eof]
  show ?thesis
  proof (cases "unat ?eof < length ?m")
    case False
    then show ?thesis
      unfolding NewEncoder_def Let_def n by simp
  next
    case True
    let ?m1 = "?m[unat ?eof := \<lparr>symbol_s = ?eof, symbol_code = 0, symbol_length = 0\<rparr>]"
    have "\<forall>e\<in>set ?m1. symbol_length e = 0"
      by (auto simp: zero_symbol_def dest!: set_update_subset_insert [THEN subsetD])
    then have "calculateCodes ?m1 = Inl PanicIndexOutOfRange"
      by (rule calculateCodes_all_zero)
    with True show ?thesis
      unfolding NewEncoder_def Let_def n by simp
  qed
qed

lemma NewDecoder_all_zero:
  "UnmarshalBinary cb = Inr c \<Longrightarrow> \<forall>e\<in>set c. symbol_length e = 0 \<Longrightarrow>
   NewDecoder cb = Inl PanicIndexOutOfRange"
  by (simp add: NewDecoder_def calculateCodes_all_zero)

text \<open>
  Claim C10. \<open>calculateCodes\<close> indexes \<open>sptrs[len(sptrs)-1]\<close>, and \<open>sptrs\<close> is
  non-empty exactly when some entry of the codebook has a nonzero length (which, for the
  lengths \<open>\<ge> 0\<close> of the data model, is a length \<open>> 0\<close>). So \<open>calculateCodes\<close>
  panics on a codebook whose lengths are all zero; \<open>NewEncoder\<close> panics when every
  count is zero, where the heap holds the end-of-input leaf alone and \<open>walk\<close> gives
  it the length 0; and \<open>NewDecoder\<close> panics on a codebook that deserializes to
  lengths that are all zero, as the inputs for slot count 0 and for two slots of length 0
  do.
\<close>

theorem calculateCodes_total_only_with_nonzero_length:
  "(sorted_ptrs c \<noteq> [] \<longleftrightarrow> (\<exists>e\<in>set c. symbol_length e \<noteq> 0))
   \<and> ((\<forall>e\<in>set c. 0 \<le> symbol_length e) \<longrightarrow>
        (sorted_ptrs c \<noteq> [] \<longleftrightarrow> (\<exists>e\<in>set c. 0 < symbol_length e)))
   \<and> ((\<forall>e\<in>set c. symbol_length e = 0) \<longrightarrow> calculateCodes c = Inl PanicIndexOutOfRange)
   \<and> ((\<forall>v\<in>set counts. v = 0) \<longrightarrow>
        build (heap_Push (push_counts 0 counts []) (Leaf 0 (of_nat (length counts))))
          = [Leaf 0 (of_nat (length counts))]
        \<and> (\<forall>m m1. walk (Leaf 0 (of_nat (length counts))) 0 m = Inr m1 \<longrightarrow>
               symbol_length (m1 ! unat (of_nat (length counts) :: u32)) = 0)
        \<and> NewEncoder counts = Inl PanicIndexOutOfRange)
   \<and> (UnmarshalBinary cb = Inr c' \<and> (\<forall>e\<in>set c'. symbol_length e = 0) \<longrightarrow>
        NewDecoder cb = Inl PanicIndexOutOfRange)
   \<and> NewDecoder [0] = Inl PanicIndexOutOfRange
   \<and> NewDecoder [2, 0, 0] = Inl PanicIndexOutOfRange"
proof (intro conjI impI allI)
  show "sorted_ptrs c \<noteq> [] \<longleftrightarrow> (\<exists>e\<in>set c. symbol_length e \<noteq> 0)"
    by (simp add: sorted_ptrs_Nil_iff)
next
  assume "\<forall>e\<in>set c. 0 \<le> symbol_length e"
  then have "\<And>e. e \<in> set c \<Longrightarrow> symbol_length e \<noteq> 0 \<longleftrightarrow> 0 < symbol_length e"
    by force
  then show "sorted_ptrs c \<noteq> [] \<longleftrightarrow> (\<exists>e\<in>set c. 0 < symbol_length e)"
    by (auto simp: sorted_ptrs_Nil_iff)
next
  assume "\<forall>e\<in>set c. symbol_length e = 0"
  then show "calculateCodes c = Inl PanicIndexOutOfRange"
    by (rule calculateCodes_all_zero)
next
  assume "\<forall>v\<in>set counts. v = 0"
  then show "build (heap_Push (push_counts 0 counts []) (Leaf 0 (of_nat (length counts))))
          = [Leaf 0 (of_nat (length counts))]"
    by (rule build_all_zero)
next
  fix m m1
  assume "walk (Leaf 0 (of_nat (length counts))) 0 m = Inr m1"
  then show "symbol_length (m1 ! unat (of_nat (length counts) :: u32)) = 0"
    by (auto split: if_splits)
next
  assume "\<forall>v\<in>set counts. v = 0"
  then show "NewEncoder counts = Inl PanicIndexOutOfRange"
    by (rule NewEncoder_all_zero)
next
  assume "UnmarshalBinary cb = Inr c' \<and> (\<forall>e\<in>set c'. symbol_length e = 0)"
  then show "NewDecoder cb = Inl PanicIndexOutOfRange"
    by (simp add: NewDecoder_all_zero)
next
  show "NewDecoder [0] = Inl PanicIndexOutOfRange" by code_simp
next
  show "NewDecoder [2, 0, 0] = Inl PanicIndexOutOfRange" by code_simp
qed

theorem calculateCodes_total_only_with_nonzero_length_witness:
  "sorted_ptrs [zero_symbol] = []
   \<and> calculateCodes [zero_symbol] = Inl PanicIndexOutOfRange
   \<and> NewEncoder [0, 0] = Inl PanicIndexOutOfRange
   \<and> UnmarshalBinary [1, 0] = Inr [zero_symbol]
   \<and> NewDecoder [1, 0] = Inl PanicIndexOutOfRange"
proof -
  have u: "UnmarshalBinary [1, 0] = Inr [zero_symbol]" by code_simp
  show ?thesis
    using calculateCodes_total_only_with_nonzero_length
            [of "[zero_symbol]" "[0, 0]" "[1, 0]" "[zero_symbol]"] u
    by (simp add: zero_symbol_def)
qed

subsection \<open>Truncated codebooks\<close>

lemma ReadUvarint_loop_truncated:
  "list_all (\<lambda>b. 0x80 \<le> b) t \<Longrightarrow> \<exists>e r. ReadUvarint_loop i x sh t = (Inl e, r)"
proof (induction t arbitrary: i x sh)
  case Nil
  show ?case by simp
next
  case (Cons b t)
  then have "\<not> b < 0x80" by (simp add: not_less)
  with Cons show ?case by simp
qed

lemma ReadUvarint_loop_complete:
  "list_all (\<lambda>b. 0x80 \<le> b) hi \<Longrightarrow> lo < 0x80 \<Longrightarrow> i + length hi \<le> 9 \<Longrightarrow>
   (i + length hi = 9 \<longrightarrow> lo \<le> 1) \<Longrightarrow>
   \<exists>y. \<forall>rest. ReadUvarint_loop i x sh (hi @ lo # rest) = (Inr y, rest)"
proof (induction hi arbitrary: i x sh)
  case Nil
  then show ?case by (auto simp: not_less)
next
  case (Cons b hi)
  then have b: "\<not> b < 0x80" "\<not> 10 \<le> i" by (simp_all add: not_less)
  from Cons.prems have "list_all (\<lambda>b. 0x80 \<le> b) hi" "i + 1 + length hi \<le> 9"
    "i + 1 + length hi = 9 \<longrightarrow> lo \<le> 1" by simp_all
  from Cons.IH [OF this(1) Cons.prems(2) this(2,3)] b show ?case by simp
qed

lemma ReadUvarint_truncated:
  "truncated_varint t \<Longrightarrow> \<exists>e r. ReadUvarint t = (Inl e, r)"
  unfolding ReadUvarint_def truncated_varint_def by (blast dest: ReadUvarint_loop_truncated)

lemma ReadUvarint_complete:
  assumes "complete_varint v"
  shows "\<exists>y. \<forall>rest. ReadUvarint (v @ rest) = (Inr y, rest)"
proof -
  from assms have v: "v = butlast v @ [last v]" by (simp add: complete_varint_def)
  have "\<exists>y. \<forall>rest. ReadUvarint_loop 0 0 0 (butlast v @ last v # rest) = (Inr y, rest)"
    using assms by (intro ReadUvarint_loop_complete) (auto simp: complete_varint_def)
  then obtain y where
    "\<forall>rest. ReadUvarint_loop 0 0 0 (butlast v @ last v # rest) = (Inr y, rest)" ..
  moreover have "\<And>rest. v @ rest = butlast v @ last v # rest"
    using v by (metis append.assoc append_Cons append_Nil)
  ultimately show ?thesis unfolding ReadUvarint_def by metis
qed

lemma unmarshal_loop_truncated:
  "list_all complete_varint vs \<Longrightarrow> truncated_varint t \<Longrightarrow> length vs < k \<Longrightarrow>
   unmarshal_loop k i c (concat vs @ t) = Inl ErrInvalidCodebook"
proof (induction vs arbitrary: k i c)
  case Nil
  then obtain k' where k: "k = Suc k'" by (cases k) auto
  from ReadUvarint_truncated [OF Nil.prems(2)] show ?case by (auto simp: k)
next
  case (Cons v vs)
  then obtain k' where k: "k = Suc k'" by (cases k) auto
  from Cons.prems have "complete_varint v" by simp
  from ReadUvarint_complete [OF this]
  obtain y where y: "\<And>rest. ReadUvarint (v @ rest) = (Inr y, rest)" by blast
  from Cons.prems k have "list_all complete_varint vs" "length vs < k'" by simp_all
  from Cons.IH [OF this(1) Cons.prems(2) this(2)] show ?case
    by (simp add: k y)
qed

lemma make_codebook_ok: "(l :: u64) \<le> 2 ^ 44 \<Longrightarrow> \<not> make_panics 16 (sint l)"
proof -
  assume l: "l \<le> 2 ^ 44"
  then have u: "uint l \<le> 2 ^ 44" by (simp add: word_le_def)
  moreover have "- (2 ^ 63) \<le> uint l" by (rule order_trans [OF _ uint_ge_0]) simp
  ultimately have "sint l = uint l" by (simp add: sint_uint signed_take_bit_int_eq_self)
  with u show ?thesis by (simp add: make_panics_def maxAlloc_def)
qed

text \<open>
  Where the declared slot count \<open>l\<close> is below \<open>2^32\<close>, \<open>uint32(l)\<close> is \<open>l\<close> and
  \<open>make\<close> does not panic. There an input that ends inside the varint of the slot count,
  or inside one of the \<open>l\<close> length varints, gives the invalid-codebook error, from
  \<open>UnmarshalBinary\<close> and from \<open>NewDecoder\<close> alike.
\<close>

lemma UnmarshalBinary_truncated_small:
  "(truncated_varint t \<longrightarrow>
       UnmarshalBinary t = Inl ErrInvalidCodebook \<and> NewDecoder t = Inl ErrInvalidCodebook)
   \<and> (complete_varint v0 \<and> ReadUvarint v0 = (Inr l, []) \<and> l < 2 ^ 32
        \<and> list_all complete_varint vs \<and> length vs < unat l
        \<and> truncated_varint t \<longrightarrow>
       UnmarshalBinary (v0 @ concat vs @ t) = Inl ErrInvalidCodebook
       \<and> NewDecoder (v0 @ concat vs @ t) = Inl ErrInvalidCodebook)"
proof (intro conjI impI)
  assume t: "truncated_varint t"
  from ReadUvarint_truncated [OF t]
  show u: "UnmarshalBinary t = Inl ErrInvalidCodebook"
    by (auto simp: UnmarshalBinary_def)
  then show "NewDecoder t = Inl ErrInvalidCodebook" by (simp add: NewDecoder_def)
next
  assume a: "complete_varint v0 \<and> ReadUvarint v0 = (Inr l, []) \<and> l < 2 ^ 32
        \<and> list_all complete_varint vs \<and> length vs < unat l
        \<and> truncated_varint t"
  from ReadUvarint_complete [of v0] a
  obtain y where y: "\<And>rest. ReadUvarint (v0 @ rest) = (Inr y, rest)" by blast
  from y [of "[]"] a have yl: "y = l" by simp
  from a have l32: "unat l < 2 ^ 32" by (simp add: word_less_nat_alt)
  have "l \<le> 2 ^ 44" using l32 by (simp add: word_le_nat_alt)
  then have mk: "\<not> make_panics 16 (sint l)" by (rule make_codebook_ok)
  have "unat (ucast l :: u32) = unat l"
    using l32 by (simp add: unsigned_ucast_eq take_bit_nat_eq_self)
  with a mk show u: "UnmarshalBinary (v0 @ concat vs @ t) = Inl ErrInvalidCodebook"
    by (simp add: UnmarshalBinary_def y yl unmarshal_loop_truncated)
  then show "NewDecoder (v0 @ concat vs @ t) = Inl ErrInvalidCodebook"
    by (simp add: NewDecoder_def)
qed

lemma UnmarshalBinary_truncated_small_examples:
  "UnmarshalBinary [0x80] = Inl ErrInvalidCodebook
   \<and> NewDecoder [] = Inl ErrInvalidCodebook
   \<and> UnmarshalBinary [3, 1, 0x82, 1, 0x80] = Inl ErrInvalidCodebook
   \<and> NewDecoder [3, 1, 0x82, 1, 0x80] = Inl ErrInvalidCodebook"
proof -
  have r: "ReadUvarint [3] = (Inr 3, [])" by (simp add: ReadUvarint_def)
  have "truncated_varint [0x80]" "truncated_varint []"
    by (simp_all add: truncated_varint_def)
  moreover have "complete_varint [3]" "list_all complete_varint [[1], [0x82, 1]]"
    by (simp_all add: complete_varint_def)
  ultimately show ?thesis
    using UnmarshalBinary_truncated_small [of "[0x80]" "[]" 0 "[]"]
          UnmarshalBinary_truncated_small [of "[]" "[]" 0 "[]"]
          UnmarshalBinary_truncated_small [of "[0x80]" "[3]" 3 "[[1], [0x82, 1]]"] r
    by simp
qed

text \<open>
  Claim C8. The claim is that a codebook whose declared slot count or any of whose
  declared length varints cannot be fully read gives the invalid-codebook error, from
  \<open>UnmarshalBinary\<close> and from \<open>NewDecoder\<close>. \<open>UnmarshalBinary\<close> passes the slot count to
  \<open>make\<close> as it was read, before it reads a length. The seven bytes
  \<open>81 80 80 80 80 80 08\<close> are the complete varint of \<open>2^45 + 1\<close> and nothing else: none
  of the declared lengths can be read, \<open>make\<close> panics, and neither function returns the
  invalid-codebook error.
\<close>

theorem UnmarshalBinary_truncated_make_panic:
  "ReadUvarint [0x81, 0x80, 0x80, 0x80, 0x80, 0x80, 0x08] = (Inr 35184372088833, [])
   \<and> ReadUvarint [] = (Inl IoEOF, [])
   \<and> UnmarshalBinary [0x81, 0x80, 0x80, 0x80, 0x80, 0x80, 0x08] = Inl PanicMakeLen
   \<and> NewDecoder [0x81, 0x80, 0x80, 0x80, 0x80, 0x80, 0x08] = Inl PanicMakeLen"
  by (simp add: NewDecoder_def UnmarshalBinary_def ReadUvarint_def make_panics_def maxAlloc_def)

text \<open>
  The loop of \<open>UnmarshalBinary\<close> counts with a \<open>uint32\<close> up to \<open>uint32(l)\<close>. The five
  bytes \<open>80 80 80 80 10\<close> are the complete varint of \<open>2^32\<close> and nothing else. Where the
  \<open>2^32\<close> slots can be allocated the loop runs \<open>uint32(2^32) = 0\<close> times and
  \<open>UnmarshalBinary\<close> returns the codebook without having read a length;
  \<open>NewDecoder\<close> then panics in \<open>calculateCodes\<close>, all lengths being zero.
\<close>

lemma UnmarshalBinary_count_as_uint32:
  "ReadUvarint [0x80, 0x80, 0x80, 0x80, 0x10] = (Inr 4294967296, [])
   \<and> UnmarshalBinary [0x80, 0x80, 0x80, 0x80, 0x10] = Inr (replicate 4294967296 zero_symbol)
   \<and> NewDecoder [0x80, 0x80, 0x80, 0x80, 0x10] = Inl PanicIndexOutOfRange"
proof -
  have "calculateCodes (replicate n zero_symbol) = Inl PanicIndexOutOfRange" for n
    by (rule calculateCodes_all_zero) (simp add: zero_symbol_def)
  then show ?thesis
    by (simp add: NewDecoder_def UnmarshalBinary_def ReadUvarint_def make_panics_def
          maxAlloc_def)
qed

subsection \<open>The unknown-symbol return of ReadSymbol\<close>

lemma ReadSymbol_loop_not_unknown:
  "i < length (d_numl d) \<Longrightarrow> (\<And>r. fst (ReadBit r) \<noteq> Inl ErrUnknownSymbol) \<Longrightarrow>
   fst (ReadSymbol_loop ReadBit d i offset code br) \<noteq> Inl ErrUnknownSymbol"
proof (induction ReadBit d i offset code br rule: ReadSymbol_loop.induct)
  case (1 ReadBit d i offset code br)
  obtain res br1 where rb: "ReadBit br = (res, br1)" by (cases "ReadBit br")
  show ?case
  proof (cases res)
    case (Inl err)
    with rb "1.prems"(2) [of br] have "err \<noteq> ErrUnknownSymbol" by auto
    with Inl rb "1.prems"(1) show ?thesis
      by (subst ReadSymbol_loop.simps) simp
  next
    case (Inr b)
    show ?thesis
      using "1.IH" [OF "1.prems"(1) rb [symmetric] Inr refl refl _ refl] "1.prems" rb Inr
      by (subst ReadSymbol_loop.simps) (auto simp: Let_def not_le)
  qed
qed

text \<open>
  Claim C2. At the decoder for the one-slot codebook of length 2 (bytes 1, 2), whose only
  code is 00, the bits 1, 1, 1 match no code. \<open>ReadSymbol\<close> does not return the
  unknown-symbol error there: its third iteration reads \<open>d.sym[1]\<close>, beyond the one
  entry of the table.
\<close>

theorem ReadSymbol_unmatched_bits_panic:
  "(case NewDecoder [1, 2] of
      Inl err \<Rightarrow> False
    | Inr d \<Rightarrow>
        d_numl d = [0, 0, 1] \<and> map symbol_code (d_sym d) = [0]
        \<and> fst (ReadSymbol bits_ReadBit d [True, True, True, True]) = Inl PanicIndexOutOfRange)"
  by code_simp

subsection \<open>Close and WriteSymbol against the stream\<close>

text \<open>
  Claim C3. \<open>Close\<close> never sets \<open>closed\<close>, so a second \<open>Close\<close> flushes the
  stream again: a stream that records the calls made on it has seen two flushes.
\<close>

theorem Close_twice_flushes_twice:
  "w_closed (Close recording_writer (Encoder_Writer e [])) = False
   \<and> w_BitWriter (Close recording_writer (Encoder_Writer e [])) = [Call_Flush Zero]
   \<and> w_BitWriter (Close recording_writer (Close recording_writer (Encoder_Writer e [])))
       = [Call_Flush Zero, Call_Flush Zero]"
  by (simp add: Close_def recording_writer_def Encoder_Writer_def)

text \<open>
  Claim C4. With the encoder for the counts \<open>[5]\<close> and a stream whose \<open>WriteBits\<close>
  fails, \<open>WriteSymbol\<close> of symbol 0 reports one bit written and no error.
\<close>

theorem WriteSymbol_drops_stream_error:
  "(case NewEncoder [5] of
      Inl err \<Rightarrow> False
    | Inr e \<Rightarrow>
        fst (WriteBits (failing_writer 7) (ucast (symbol_code (e_m e ! 0)))
               (symbol_length (e_m e ! 0)) ()) = Some (IoErr 7)
        \<and> fst (WriteSymbol (failing_writer 7) (Encoder_Writer e ()) 0) = Inr 1)"
  by code_simp

subsection \<open>The one-symbol alphabet\<close>

text \<open>
  Claim C9. For the counts \<open>[5]\<close>, symbol 0 and the end-of-input symbol both have code
  length 1; writing symbol 0 and the end-of-input sentinel reports one bit each and puts
  exactly two bits on the stream; and reading two symbols from those bits, before or
  after \<open>Close\<close> has padded them, gives symbol 0 and the sentinel.
\<close>

theorem single_symbol_alphabet:
  "(case NewEncoder [5] of
      Inl err \<Rightarrow> False
    | Inr e \<Rightarrow>
        SymbolLen e 0 = 1 \<and> SymbolLen e EOF = 1
        \<and> map symbol_length (e_m e) = [1, 1]
        \<and> (case write_symbols bit_writer (Encoder_Writer e []) [0, EOF] of
             (Inl err, w) \<Rightarrow> False
           | (Inr ns, w) \<Rightarrow>
               ns = [1, 1] \<and> length (w_BitWriter w) = 2
               \<and> decode (Encoder_Decoder e) 2 (w_BitWriter w) = Inr [0, EOF]
               \<and> decode (Encoder_Decoder e) 2 (w_BitWriter (Close bit_writer w))
                   = Inr [0, EOF]))"
  by code_simp

subsection \<open>Canonical codes\<close>

lemma length_code_seq [simp]: "length (code_seq code prevlen ls) = length ls"
  by (induction ls arbitrary: code prevlen) (simp_all add: Let_def)

lemma length_ncode_seq [simp]: "length (ncode_seq a p ls) = length ls"
  by (induction ls arbitrary: a p) (simp_all add: Let_def)

lemma code_seq_of_nat:
  "code_seq (of_nat a) (int p) (map int ls) = map of_nat (ncode_seq a p ls)"
proof (induction ls arbitrary: a p)
  case Nil
  show ?case by simp
next
  case (Cons l ls)
  show ?case
  proof (cases "p < l")
    case True
    then have n: "nat (int l - int p) = l - p" by simp
    have "code_seq (of_nat (a * 2 ^ (l - p) + 1)) (int l) (map int ls)
            = map of_nat (ncode_seq (a * 2 ^ (l - p) + 1) l ls)"
      by (rule Cons.IH)
    with True n show ?thesis
      by (simp add: Let_def push_bit_eq_mult ac_simps)
  next
    case False
    have "code_seq (of_nat (a + 1)) (int p) (map int ls) = map of_nat (ncode_seq (a + 1) p ls)"
      by (rule Cons.IH)
    with False show ?thesis
      by (simp add: Let_def ac_simps)
  qed
qed

lemma code_seq_start:
  "\<forall>l\<in>set ls. 0 < l \<Longrightarrow> code_seq 0 (- 1) ls = code_seq 0 0 ls"
  by (cases ls) (simp_all add: Let_def)

lemma ncode_seq_aligned:
  "sorted ls \<Longrightarrow> \<forall>l\<in>set ls. p \<le> l \<and> l \<le> L \<Longrightarrow> j < length ls \<Longrightarrow>
   ncode_seq a p ls ! j * 2 ^ (L - ls ! j)
     = a * 2 ^ (L - p) + sum_list (map (\<lambda>l. 2 ^ (L - l)) (take j ls))"
proof (induction ls arbitrary: a p j)
  case Nil
  then show ?case by simp
next
  case (Cons l ls)
  from Cons.prems have pl: "p \<le> l" "l \<le> L" by simp_all
  let ?a1 = "if p < l then a * 2 ^ (l - p) else a"
  have a1: "?a1 * 2 ^ (L - l) = a * 2 ^ (L - p)"
  proof (cases "p < l")
    case True
    with pl have "(L - p) = (l - p) + (L - l)" by simp
    then have "(2::nat) ^ (L - p) = 2 ^ (l - p) * 2 ^ (L - l)" by (simp add: power_add)
    with True show ?thesis by simp
  next
    case False
    with pl have "p = l" by simp
    with False show ?thesis by simp
  qed
  show ?case
  proof (cases j)
    case 0
    with a1 show ?thesis by (simp add: Let_def)
  next
    case (Suc j')
    from Cons.prems have s: "sorted ls" "\<forall>x\<in>set ls. l \<le> x \<and> x \<le> L" by auto
    from Cons.prems Suc have j': "j' < length ls" by simp
    have p1: "(if p < l then l else p) = l" using pl by simp
    have "ncode_seq (?a1 + 1) l ls ! j' * 2 ^ (L - ls ! j')
            = (?a1 + 1) * 2 ^ (L - l) + sum_list (map (\<lambda>l. 2 ^ (L - l)) (take j' ls))"
      by (rule Cons.IH [OF s j'])
    also have "\<dots> = a * 2 ^ (L - p) + 2 ^ (L - l) + sum_list (map (\<lambda>l. 2 ^ (L - l)) (take j' ls))"
      using a1 by (simp add: algebra_simps)
    finally show ?thesis using Suc p1 by (simp add: Let_def)
  qed
qed

lemma wsum_Suc: "j < length ls \<Longrightarrow> wsum ls (Suc j) = wsum ls j + 2 ^ (32 - ls ! j)"
  by (simp add: wsum_def take_Suc_conv_app_nth)

lemma wsum_mono: "j \<le> k \<Longrightarrow> wsum ls j \<le> wsum ls k"
proof -
  assume "j \<le> k"
  then have "take k ls = take j ls @ take (k - j) (drop j ls)"
    by (metis le_add_diff_inverse take_add)
  then show ?thesis by (simp add: wsum_def)
qed

lemma wsum_le_total: "wsum ls j \<le> sum_list (map (\<lambda>l. 2 ^ (32 - l)) ls)"
proof -
  have "ls = take j ls @ drop j ls" by simp
  then have "sum_list (map (\<lambda>l. 2 ^ (32 - l)) ls)
      = wsum ls j + sum_list (map (\<lambda>l. 2 ^ (32 - l)) (drop j ls))"
    unfolding wsum_def by (metis map_append sum_list.append)
  then show ?thesis by simp
qed

lemma nc_aligned:
  assumes "sorted ls" "\<forall>l\<in>set ls. l \<le> 32" "j < length ls"
  shows "nc ls j * 2 ^ (32 - ls ! j) = wsum ls j"
  using ncode_seq_aligned [of ls 0 32 j 0] assms by (simp add: nc_def wsum_def)

lemma nc_bound:
  assumes "sorted ls" "\<forall>l\<in>set ls. l \<le> 32" "j < length ls"
    and kraft: "sum_list (map (\<lambda>l. 2 ^ (32 - l)) ls) \<le> (2::nat) ^ 32"
  shows "nc ls j < 2 ^ (ls ! j)"
proof -
  from assms have l: "ls ! j \<le> 32" by simp
  have "(nc ls j + 1) * 2 ^ (32 - ls ! j) = wsum ls (Suc j)"
    using nc_aligned [OF assms(1-3)] wsum_Suc [OF assms(3)] by (simp add: algebra_simps)
  also have "\<dots> \<le> 2 ^ 32" using wsum_le_total [of ls "Suc j"] kraft by simp
  also have "(2::nat) ^ 32 = 2 ^ (ls ! j) * 2 ^ (32 - ls ! j)"
    using l by (simp flip: power_add)
  finally have "nc ls j + 1 \<le> 2 ^ (ls ! j)" by (simp only: mult_le_cancel2) simp
  then show ?thesis by simp
qed

lemma wsum_same_len:
  assumes "sorted ls" "j \<le> k" "k < length ls" "ls ! j = ls ! k"
  shows "wsum ls k = wsum ls j + (k - j) * 2 ^ (32 - ls ! j)"
  using assms(2,3,4)
proof (induction k)
  case 0
  then show ?case by simp
next
  case (Suc k)
  show ?case
  proof (cases "j = Suc k")
    case True
    then show ?thesis by simp
  next
    case False
    with Suc.prems have jk: "j \<le> k" "k < length ls" by simp_all
    have "ls ! j \<le> ls ! k" by (rule sorted_nth_mono [OF assms(1) jk])
    moreover have "ls ! k \<le> ls ! Suc k"
      by (rule sorted_nth_mono [OF assms(1) _ Suc.prems(2)]) simp
    ultimately have "ls ! j \<le> ls ! k" "ls ! k \<le> ls ! Suc k" by simp_all
    with Suc.prems have eq: "ls ! j = ls ! k" by simp
    from Suc.IH [OF jk eq] wsum_Suc [OF jk(2)] eq jk show ?thesis
      by (simp add: Suc_diff_le)
  qed
qed

lemma nc_same_len:
  assumes "sorted ls" "\<forall>l\<in>set ls. l \<le> 32" "j \<le> k" "k < length ls" "ls ! j = ls ! k"
  shows "nc ls k = nc ls j + (k - j)"
proof -
  from assms have j: "j < length ls" by simp
  have "nc ls k * 2 ^ (32 - ls ! k) = wsum ls k"
    by (rule nc_aligned [OF assms(1,2,4)])
  also have "\<dots> = wsum ls j + (k - j) * 2 ^ (32 - ls ! j)"
    by (rule wsum_same_len [OF assms(1,3,4,5)])
  also have "wsum ls j = nc ls j * 2 ^ (32 - ls ! j)"
    by (rule nc_aligned [OF assms(1,2) j, symmetric])
  finally have "nc ls k * 2 ^ (32 - ls ! j) = (nc ls j + (k - j)) * 2 ^ (32 - ls ! j)"
    using assms(5) by (simp add: algebra_simps)
  then show ?thesis by simp
qed

lemma nc_next_block:
  assumes "sorted ls" "\<forall>l\<in>set ls. l \<le> 32" "j < k" "k < length ls"
  shows "(nc ls j + 1) * 2 ^ (ls ! k - ls ! j) \<le> nc ls k"
proof -
  from assms have j: "j < length ls" by simp
  from assms have le: "ls ! j \<le> ls ! k" "ls ! k \<le> 32"
    by (simp_all add: sorted_iff_nth_mono)
  have "(nc ls j + 1) * 2 ^ (32 - ls ! j) = wsum ls (Suc j)"
    using nc_aligned [OF assms(1,2) j] wsum_Suc [OF j] by (simp add: algebra_simps)
  also have "\<dots> \<le> wsum ls k" using assms(3) by (intro wsum_mono) simp
  also have "\<dots> = nc ls k * 2 ^ (32 - ls ! k)"
    by (rule nc_aligned [OF assms(1,2,4), symmetric])
  finally have "(nc ls j + 1) * 2 ^ (32 - ls ! j) \<le> nc ls k * 2 ^ (32 - ls ! k)" .
  moreover have "(2::nat) ^ (32 - ls ! j) = 2 ^ (ls ! k - ls ! j) * 2 ^ (32 - ls ! k)"
    using le by (simp flip: power_add)
  ultimately have "((nc ls j + 1) * 2 ^ (ls ! k - ls ! j)) * 2 ^ (32 - ls ! k)
       \<le> nc ls k * 2 ^ (32 - ls ! k)"
    by (simp only: mult.assoc)
  then show ?thesis by (simp only: mult_le_cancel2) simp
qed

lemma nc_not_prefix:
  assumes "sorted ls" "\<forall>l\<in>set ls. l \<le> 32" "j < k" "k < length ls"
  shows "nc ls k div 2 ^ (ls ! k - ls ! j) \<noteq> nc ls j"
proof -
  have "(nc ls j + 1) * 2 ^ (ls ! k - ls ! j) \<le> nc ls k"
    by (rule nc_next_block [OF assms])
  then have "nc ls j + 1 \<le> nc ls k div 2 ^ (ls ! k - ls ! j)"
    by (simp add: less_eq_div_iff_mult_less_eq)
  then show ?thesis by simp
qed

lemma below_Suc: "below ls (Suc i) = below ls i + count_list ls i"
  by (induction ls) (auto simp: below_def)

lemma below_le: "below ls i \<le> length ls"
  by (simp add: below_def)

lemma below_iff:
  "sorted ls \<Longrightarrow> j < length ls \<Longrightarrow> ls ! j < i \<longleftrightarrow> j < below ls i"
proof (induction ls arbitrary: j)
  case Nil
  then show ?case by simp
next
  case (Cons x xs)
  show ?case
  proof (cases "x < i")
    case True
    show ?thesis
    proof (cases j)
      case 0
      with True show ?thesis by (simp add: below_def)
    next
      case (Suc j')
      with Cons.prems have "xs ! j' < i \<longleftrightarrow> j' < below xs i"
        by (intro Cons.IH) simp_all
      with True Suc show ?thesis by (simp add: below_def)
    qed
  next
    case False
    from Cons.prems have "\<forall>y\<in>set (x # xs). x \<le> y" by auto
    with False have all: "\<forall>y\<in>set (x # xs). \<not> y < i" by auto
    then have "below (x # xs) i = 0" by (simp add: below_def)
    moreover from all Cons.prems(2) have "\<not> (x # xs) ! j < i"
      using nth_mem by blast
    ultimately show ?thesis by simp
  qed
qed

lemma ReadSymbol_loop_continue:
  assumes "i < length (d_numl d)"
    and "unat (offset + d_numl d ! i) < length (d_sym d)"
    and "i + 1 < length (d_numl d)"
    and "code1 = (if b then push_bit 1 code OR 1 else push_bit 1 code)"
    and "\<not> code1 - symbol_code (d_sym d ! unat (offset + d_numl d ! i)) < d_numl d ! (i + 1)"
  shows "ReadSymbol_loop bits_ReadBit d i offset code (b # bs)
           = ReadSymbol_loop bits_ReadBit d (i + 1) (offset + d_numl d ! i) code1 bs"
  using assms by (subst ReadSymbol_loop.simps) (simp add: Let_def)

lemma ReadSymbol_loop_found:
  assumes "i < length (d_numl d)"
    and "unat (offset + d_numl d ! i) < length (d_sym d)"
    and "i + 1 < length (d_numl d)"
    and "code1 = (if b then push_bit 1 code OR 1 else push_bit 1 code)"
    and "code1 - symbol_code (d_sym d ! unat (offset + d_numl d ! i)) < d_numl d ! (i + 1)"
    and "unat (code1 - symbol_code (d_sym d ! unat (offset + d_numl d ! i))
                + (offset + d_numl d ! i)) = k"
    and "k < length (d_sym d)"
  shows "ReadSymbol_loop bits_ReadBit d i offset code (b # bs)
           = (Inr (sym_out d (symbol_s (d_sym d ! k))), bs)"
  using assms by (subst ReadSymbol_loop.simps) (simp add: Let_def sym_out_def)

lemma shift_in_bit:
  fixes c :: u32
  shows "(if b then push_bit 1 c OR 1 else push_bit 1 c) = 2 * c + of_bool b"
  by (simp add: push_bit_eq_mult or_one_eq)

lemma div_pow2_step: "(x::nat) div 2 ^ m = 2 * (x div 2 ^ Suc m) + of_bool (bit x m)"
proof -
  have "x div 2 ^ Suc m = (x div 2 ^ m) div 2"
    by (metis Suc_eq_plus1 div_exp_eq power_one_right)
  moreover have "bit x m \<longleftrightarrow> odd (x div 2 ^ m)" by (simp add: bit_iff_odd)
  ultimately show ?thesis by (cases "odd (x div 2 ^ m)") (auto elim: oddE)
qed

lemma accumulate_bit:
  "(if bit x m then push_bit 1 (of_nat (x div 2 ^ Suc m) :: u32) OR 1
    else push_bit 1 (of_nat (x div 2 ^ Suc m))) = of_nat (x div 2 ^ m)"
  by (subst shift_in_bit, subst (2) div_pow2_step) simp

lemma unat_of_nat32: "n < 2 ^ 32 \<Longrightarrow> unat (of_nat n :: u32) = n"
  by (simp add: unat_of_nat)

lemma of_nat_less32:
  "a < 2 ^ 32 \<Longrightarrow> b < 2 ^ 32 \<Longrightarrow> (of_nat a :: u32) < of_nat b \<longleftrightarrow> a < b"
  by (simp add: word_less_nat_alt unat_of_nat32)

lemma of_nat_inj32:
  "a < 2 ^ 32 \<Longrightarrow> b < 2 ^ 32 \<Longrightarrow> (of_nat a :: u32) = of_nat b \<longleftrightarrow> a = b"
  by (metis unat_of_nat32)

lemma canon_block_found:
  assumes "sorted ls" "\<forall>l\<in>set ls. l \<le> 32" "k < length ls"
  shows "below ls (ls ! k) \<le> k"
    and "k - below ls (ls ! k) < count_list ls (ls ! k)"
    and "nc ls k = nc ls (below ls (ls ! k)) + (k - below ls (ls ! k))"
proof -
  let ?f = "below ls (ls ! k)"
  have "\<not> ls ! k < ls ! k" by simp
  then have "\<not> k < ?f" using below_iff [OF assms(1,3)] by blast
  then show fk: "?f \<le> k" by simp
  have "ls ! k < Suc (ls ! k)" by simp
  then have "k < below ls (Suc (ls ! k))" using below_iff [OF assms(1,3)] by blast
  then show "k - ?f < count_list ls (ls ! k)" using fk by (simp add: below_Suc)
  from fk assms(3) have f: "?f < length ls" by simp
  have "\<not> ?f < ?f" by simp
  then have "\<not> ls ! ?f < ls ! k" using below_iff [OF assms(1) f] by blast
  moreover have "ls ! ?f \<le> ls ! k" by (rule sorted_nth_mono [OF assms(1) fk assms(3)])
  ultimately have "ls ! ?f = ls ! k" by simp
  then show "nc ls k = nc ls ?f + (k - ?f)"
    by (rule nc_same_len [OF assms(1,2) fk assms(3)])
qed

lemma canon_block_member:
  assumes "sorted ls" "\<forall>l\<in>set ls. l \<le> 32" "t < count_list ls i"
  shows "below ls i + t < length ls"
    and "ls ! (below ls i + t) = i"
    and "nc ls (below ls i + t) = nc ls (below ls i) + t"
proof -
  let ?f = "below ls i"
  have "?f + t < below ls (Suc i)" using assms(3) by (simp add: below_Suc)
  then show j: "?f + t < length ls" using below_le [of ls "Suc i"] by simp
  have "?f + t < below ls (Suc i)" using assms(3) by (simp add: below_Suc)
  then have "ls ! (?f + t) < Suc i" using below_iff [OF assms(1) j] by blast
  moreover have "\<not> ?f + t < ?f" by simp
  then have "\<not> ls ! (?f + t) < i" using below_iff [OF assms(1) j] by blast
  ultimately show lj: "ls ! (?f + t) = i" by simp
  from j have f: "?f < length ls" by simp
  have "?f < below ls (Suc i)" using assms(3) by (simp add: below_Suc)
  then have "ls ! ?f < Suc i" using below_iff [OF assms(1) f] by blast
  moreover have "\<not> ls ! ?f < i" using below_iff [OF assms(1) f] by blast
  ultimately have "ls ! ?f = i" by simp
  with lj have "ls ! ?f = ls ! (?f + t)" by simp
  from nc_same_len [OF assms(1,2) _ j this] show "nc ls (?f + t) = nc ls ?f + t" by simp
qed

lemma ReadSymbol_loop_canon:
  assumes c: "canon ls (d_sym d) (d_numl d)" and n32: "length ls < 2 ^ 32"
    and k: "k < length ls"
  shows "i < ls ! k \<Longrightarrow>
     ReadSymbol_loop bits_ReadBit d i (of_nat (below ls i))
        (of_nat (nc ls k div 2 ^ (ls ! k - i)))
        (map (bit (nc ls k)) (rev [0..<ls ! k - i]) @ rest)
     = (Inr (sym_out d (symbol_s (d_sym d ! k))), rest)"
proof (induction "ls ! k - i" arbitrary: i)
  case 0
  then show ?case by simp
next
  case (Suc m)
  let ?l = "ls ! k" and ?x = "nc ls k"
  let ?f = "below ls (Suc i)"
  from c have srt: "sorted ls" and le32: "\<forall>l\<in>set ls. l \<le> 32"
    and kraft: "sum_list (map (\<lambda>l. 2 ^ (32 - l)) ls) \<le> (2::nat) ^ 32"
    and len: "length (d_sym d) = length ls"
    by (simp_all add: canon_def)
  from c k have lk: "?l \<le> 32" "?l < length (d_numl d)" by (simp_all add: canon_def)
  from c have codes: "\<And>j. j < length ls \<Longrightarrow> symbol_code (d_sym d ! j) = of_nat (nc ls j)"
    and numl: "\<And>t. t < length (d_numl d) \<Longrightarrow> d_numl d ! t = of_nat (count_list ls t)"
    by (simp_all add: canon_def)
  from Suc have m: "?l - i = Suc m" "?l - Suc i = m" by simp_all
  from Suc.prems lk have il: "i < length (d_numl d)" "i + 1 < length (d_numl d)" by simp_all
  have bits: "map (bit ?x) (rev [0..<?l - i]) @ rest
                = bit ?x m # (map (bit ?x) (rev [0..<m]) @ rest)"
    by (simp add: m)
  have code1: "of_nat (?x div 2 ^ m)
     = (if bit ?x m then push_bit 1 (of_nat (?x div 2 ^ (?l - i)) :: u32) OR 1
        else push_bit 1 (of_nat (?x div 2 ^ (?l - i))))"
    unfolding m by (rule accumulate_bit [symmetric])
  have off1: "of_nat (below ls i) + d_numl d ! i = (of_nat ?f :: u32)"
    by (simp add: numl il below_Suc)
  have f32: "?f < 2 ^ 32" using below_le [of ls "Suc i"] n32 by simp
  have "\<not> ?l < Suc i" using Suc.prems by simp
  then have "\<not> k < ?f" using below_iff [OF srt k] by blast
  then have fk: "?f \<le> k" by simp
  with k have f: "?f < length ls" by simp
  have uoff: "unat (of_nat (below ls i) + d_numl d ! i) = ?f"
    unfolding off1 by (rule unat_of_nat32 [OF f32])
  have first: "symbol_code (d_sym d ! ?f) = of_nat (nc ls ?f)" by (rule codes [OF f])
  have cnt32: "count_list ls (Suc i) < 2 ^ 32"
    using count_le_length [of ls "Suc i"] n32 by simp
  have numl1: "d_numl d ! (i + 1) = of_nat (count_list ls (Suc i))"
    using numl [OF il(2)] by simp
  have xb: "?x < 2 ^ ?l" by (rule nc_bound [OF srt le32 k kraft])
  show ?case
  proof (cases "Suc i = ?l")
    case True
    then have m0: "m = 0" using m by simp
    from canon_block_found [OF srt le32 k] True
    have b1: "k - ?f < count_list ls (Suc i)" and b2: "?x = nc ls ?f + (k - ?f)" by simp_all
    have "(of_nat ?x :: u32) - of_nat (nc ls ?f) = of_nat (k - ?f)"
      by (subst b2) simp
    then have d: "(of_nat (?x div 2 ^ m) :: u32) - symbol_code (d_sym d ! ?f) = of_nat (k - ?f)"
      by (simp add: m0 first)
    have k32: "k < 2 ^ 32" "k - ?f < 2 ^ 32" using k n32 by simp_all
    have lt: "(of_nat (?x div 2 ^ m) :: u32) - symbol_code (d_sym d ! ?f) < d_numl d ! (i + 1)"
      unfolding d numl1 by (rule iffD2 [OF of_nat_less32 [OF k32(2) cnt32] b1])
    have "of_nat (k - ?f) + (of_nat ?f :: u32) = of_nat k" using fk
      by (metis le_add_diff_inverse2 of_nat_add)
    then have idx: "unat ((of_nat (?x div 2 ^ m) :: u32) - symbol_code (d_sym d ! ?f)
                      + (of_nat (below ls i) + d_numl d ! i)) = k"
      unfolding d off1 using unat_of_nat32 [OF k32(1)] by simp
    show ?thesis
      unfolding bits
      by (rule trans [OF ReadSymbol_loop_found [where k = k and ?code1.0 = "of_nat (?x div 2 ^ m)"]])
         (use il uoff f len code1 lt idx k m0 in simp_all)
  next
    case False
    with Suc.prems have il2: "Suc i < ?l" by simp
    have nlt: "\<not> (of_nat (?x div 2 ^ m) :: u32) - symbol_code (d_sym d ! ?f) < d_numl d ! (i + 1)"
    proof
      assume a: "(of_nat (?x div 2 ^ m) :: u32) - symbol_code (d_sym d ! ?f) < d_numl d ! (i + 1)"
      define t where "t = unat ((of_nat (?x div 2 ^ m) :: u32) - symbol_code (d_sym d ! ?f))"
      from a have "t < unat (of_nat (count_list ls (Suc i)) :: u32)"
        unfolding t_def numl1 by (simp add: word_less_nat_alt)
      then have t: "t < count_list ls (Suc i)" unfolding unat_of_nat32 [OF cnt32] .
      from canon_block_member [OF srt le32 t]
      have j: "?f + t < length ls" and lj: "ls ! (?f + t) = Suc i"
        and ncj: "nc ls (?f + t) = nc ls ?f + t" by simp_all
      have "(of_nat (?x div 2 ^ m) :: u32) = symbol_code (d_sym d ! ?f) + of_nat t"
        unfolding t_def by simp
      also have "\<dots> = of_nat (nc ls (?f + t))" by (simp add: first ncj)
      finally have weq: "(of_nat (?x div 2 ^ m) :: u32) = of_nat (nc ls (?f + t))" .
      have "nc ls (?f + t) < 2 ^ (ls ! (?f + t))" by (rule nc_bound [OF srt le32 j kraft])
      also have "(2::nat) ^ (ls ! (?f + t)) \<le> 2 ^ 32"
        using lj il2 lk by (intro power_increasing) simp_all
      finally have b1: "nc ls (?f + t) < 2 ^ 32" by simp
      have "?x div 2 ^ m \<le> ?x" by simp
      also have "?x < 2 ^ ?l" by (rule xb)
      also have "(2::nat) ^ ?l \<le> 2 ^ 32" using lk by (intro power_increasing) simp_all
      finally have b2: "?x div 2 ^ m < 2 ^ 32" by simp
      from weq have eq: "?x div 2 ^ m = nc ls (?f + t)"
        by (rule iffD1 [OF of_nat_inj32 [OF b2 b1]])
      have jk: "?f + t < k"
      proof (rule ccontr)
        assume "\<not> ?f + t < k"
        then have "k \<le> ?f + t" by simp
        from sorted_nth_mono [OF srt this j] lj il2 show False by simp
      qed
      have "m = ?l - ls ! (?f + t)" using m lj by simp
      with nc_not_prefix [OF srt le32 jk k] eq show False by simp
    qed
    have "ReadSymbol_loop bits_ReadBit d i (of_nat (below ls i))
            (of_nat (?x div 2 ^ (?l - i))) (bit ?x m # (map (bit ?x) (rev [0..<m]) @ rest))
          = ReadSymbol_loop bits_ReadBit d (i + 1) (of_nat (below ls i) + d_numl d ! i)
              (of_nat (?x div 2 ^ m)) (map (bit ?x) (rev [0..<m]) @ rest)"
      by (rule ReadSymbol_loop_continue) (use il uoff f len code1 nlt in simp_all)
    also have "\<dots> = (Inr (sym_out d (symbol_s (d_sym d ! k))), rest)"
      using Suc.hyps(1) [of "Suc i"] il2 m by (simp add: off1)
    finally show ?thesis unfolding bits .
  qed
qed

lemma set_code_fields [simp]:
  "symbol_length (c[p := (c ! p)\<lparr>symbol_code := x\<rparr>] ! q) = symbol_length (c ! q)"
  "symbol_s (c[p := (c ! p)\<lparr>symbol_code := x\<rparr>] ! q) = symbol_s (c ! q)"
proof -
  show "symbol_length (c[p := (c ! p)\<lparr>symbol_code := x\<rparr>] ! q) = symbol_length (c ! q)"
  proof (cases "p < length c")
    case True
    then show ?thesis by (simp add: nth_list_update)
  next
    case False
    then show ?thesis by (simp add: list_update_beyond)
  qed
  show "symbol_s (c[p := (c ! p)\<lparr>symbol_code := x\<rparr>] ! q) = symbol_s (c ! q)"
  proof (cases "p < length c")
    case True
    then show ?thesis by (simp add: nth_list_update)
  next
    case False
    then show ?thesis by (simp add: list_update_beyond)
  qed
qed

lemma assign_loop_ok:
  "\<forall>p\<in>set ps. 0 \<le> symbol_length (c ! p) \<and> symbol_length (c ! p) < int (length numl) \<Longrightarrow>
   \<exists>r. assign_loop ps c numl code prevlen = Inr r"
proof (induction ps arbitrary: c numl code prevlen)
  case Nil
  show ?case by simp
next
  case (Cons p ps)
  let ?l = "symbol_length (c ! p)"
  let ?code1 = "if ?l > prevlen then push_bit (nat (?l - prevlen)) code else code"
  let ?c1 = "c[p := (c ! p)\<lparr>symbol_code := ?code1\<rparr>]"
  have len: "symbol_length (?c1 ! q) = symbol_length (c ! q)" for q
    by simp
  from Cons.prems have "\<forall>q\<in>set ps. 0 \<le> symbol_length (?c1 ! q)
      \<and> symbol_length (?c1 ! q) < int (length (numl[nat ?l := numl ! nat ?l + 1]))"
    by (simp add: len)
  from Cons.IH [OF this] Cons.prems show ?case
    by (simp add: Let_def not_le)
qed

lemma assign_loop_length:
  "assign_loop ps c numl code prevlen = Inr (c', numl') \<Longrightarrow>
   length c' = length c \<and> length numl' = length numl"
proof (induction ps arbitrary: c numl code prevlen)
  case Nil
  then show ?case by simp
next
  case (Cons p ps)
  then show ?case by (fastforce simp: Let_def split: if_splits)
qed

lemma assign_loop_fields:
  "assign_loop ps c numl code prevlen = Inr (c', numl') \<Longrightarrow>
   symbol_s (c' ! i) = symbol_s (c ! i) \<and> symbol_length (c' ! i) = symbol_length (c ! i)"
proof (induction ps arbitrary: c numl code prevlen)
  case Nil
  then show ?case by simp
next
  case (Cons p ps)
  let ?l = "symbol_length (c ! p)"
  let ?code1 = "if ?l > prevlen then push_bit (nat (?l - prevlen)) code else code"
  let ?c1 = "c[p := (c ! p)\<lparr>symbol_code := ?code1\<rparr>]"
  have f: "symbol_s (?c1 ! i) = symbol_s (c ! i) \<and> symbol_length (?c1 ! i) = symbol_length (c ! i)"
    by simp
  from Cons.prems have "assign_loop ps ?c1 (numl[nat ?l := numl ! nat ?l + 1]) (?code1 + 1)
                          (if ?l > prevlen then ?l else prevlen) = Inr (c', numl')"
    by (simp add: Let_def split: if_splits)
  from Cons.IH [OF this] f show ?case by simp
qed

lemma assign_loop_other:
  "assign_loop ps c numl code prevlen = Inr (c', numl') \<Longrightarrow> i \<notin> set ps \<Longrightarrow> c' ! i = c ! i"
proof (induction ps arbitrary: c numl code prevlen)
  case Nil
  then show ?case by simp
next
  case (Cons p ps)
  let ?l = "symbol_length (c ! p)"
  let ?code1 = "if ?l > prevlen then push_bit (nat (?l - prevlen)) code else code"
  let ?c1 = "c[p := (c ! p)\<lparr>symbol_code := ?code1\<rparr>]"
  from Cons.prems have "assign_loop ps ?c1 (numl[nat ?l := numl ! nat ?l + 1]) (?code1 + 1)
                          (if ?l > prevlen then ?l else prevlen) = Inr (c', numl')"
    by (simp add: Let_def split: if_splits)
  from Cons.IH [OF this] Cons.prems(2) show ?case by simp
qed

lemma assign_loop_code:
  "assign_loop ps c numl code prevlen = Inr (c', numl') \<Longrightarrow> distinct ps \<Longrightarrow>
   \<forall>p\<in>set ps. p < length c \<Longrightarrow> j < length ps \<Longrightarrow>
   symbol_code (c' ! (ps ! j)) = code_seq code prevlen (map (\<lambda>p. symbol_length (c ! p)) ps) ! j"
proof (induction ps arbitrary: c numl code prevlen j)
  case Nil
  then show ?case by simp
next
  case (Cons p ps)
  let ?l = "symbol_length (c ! p)"
  let ?code1 = "if ?l > prevlen then push_bit (nat (?l - prevlen)) code else code"
  let ?c1 = "c[p := (c ! p)\<lparr>symbol_code := ?code1\<rparr>]"
  let ?pl1 = "if ?l > prevlen then ?l else prevlen"
  from Cons.prems(1) have run: "assign_loop ps ?c1 (numl[nat ?l := numl ! nat ?l + 1]) (?code1 + 1)
                          ?pl1 = Inr (c', numl')"
    by (simp add: Let_def split: if_splits)
  have lens: "map (\<lambda>q. symbol_length (?c1 ! q)) ps = map (\<lambda>q. symbol_length (c ! q)) ps"
    by simp
  show ?case
  proof (cases j)
    case 0
    from Cons.prems(2) have "p \<notin> set ps" by simp
    from assign_loop_other [OF run this] Cons.prems(3) 0 show ?thesis
      by (simp add: Let_def)
  next
    case (Suc j')
    from Cons.prems Suc have "distinct ps" "\<forall>q\<in>set ps. q < length ?c1" "j' < length ps"
      by simp_all
    from Cons.IH [OF run this] Suc show ?thesis
      by (simp add: Let_def lens)
  qed
qed

lemma assign_loop_numl:
  "assign_loop ps c numl code prevlen = Inr (c', numl') \<Longrightarrow> k < length numl \<Longrightarrow>
   numl' ! k = numl ! k + of_nat (count_list (map (\<lambda>p. nat (symbol_length (c ! p))) ps) k)"
proof (induction ps arbitrary: c numl code prevlen)
  case Nil
  then show ?case by simp
next
  case (Cons p ps)
  let ?l = "symbol_length (c ! p)"
  let ?code1 = "if ?l > prevlen then push_bit (nat (?l - prevlen)) code else code"
  let ?c1 = "c[p := (c ! p)\<lparr>symbol_code := ?code1\<rparr>]"
  let ?pl1 = "if ?l > prevlen then ?l else prevlen"
  let ?numl1 = "numl[nat ?l := numl ! nat ?l + 1]"
  from Cons.prems(1) have run: "assign_loop ps ?c1 ?numl1 (?code1 + 1) ?pl1 = Inr (c', numl')"
    and l: "0 \<le> ?l" "?l < int (length numl)"
    by (simp_all add: Let_def not_le split: if_splits)
  have len: "symbol_length (?c1 ! q) = symbol_length (c ! q)" for q
    by simp
  from Cons.prems(2) have "k < length ?numl1" by simp
  from Cons.IH [OF run this]
  have "numl' ! k = ?numl1 ! k + of_nat (count_list (map (\<lambda>p. nat (symbol_length (c ! p))) ps) k)"
    by (simp add: len)
  with Cons.prems(2) l show ?case
    by (cases "nat ?l = k") (simp_all add: nth_list_update)
qed

lemma distinct_sorted_ptrs: "distinct (sorted_ptrs c)"
  by (simp add: sorted_ptrs_def)

lemma sorted_ptrs_bound:
  "p \<in> set (sorted_ptrs c) \<Longrightarrow> p < length c \<and> symbol_length (c ! p) \<noteq> 0"
  by (simp add: set_sorted_ptrs)

lemma sorted_map_mono:
  "sorted (map f xs) \<Longrightarrow> (\<And>x y. f x \<le> f y \<Longrightarrow> g x \<le> g y) \<Longrightarrow> sorted (map g xs)"
  unfolding sorted_map by (erule sorted_wrt_mono_rel [rotated]) blast

lemma sorted_ptrs_lengths:
  "sorted (map (\<lambda>i. symbol_length (c ! i)) (sorted_ptrs c))"
proof -
  have "sorted (map (\<lambda>i. symkey (c ! i)) (sorted_ptrs c))"
    unfolding sorted_ptrs_def by (rule sorted_sort_key)
  then show ?thesis
    by (rule sorted_map_mono) (auto simp: symkey_def less_eq_prod_def)
qed

lemma sorted_lens_of: "sorted (lens_of c)"
proof -
  have "sorted (map (\<lambda>i. symbol_length (c ! i)) (sorted_ptrs c))"
    by (rule sorted_ptrs_lengths)
  then have "sorted (map (\<lambda>i. nat (symbol_length (c ! i))) (sorted_ptrs c))"
    by (rule sorted_map_mono) simp
  then show ?thesis by (simp add: lens_of_def)
qed

lemma sorted_last_max:
  "sorted (map f xs) \<Longrightarrow> x \<in> set xs \<Longrightarrow> f x \<le> f (last xs)"
proof (induction xs)
  case Nil
  then show ?case by simp
next
  case (Cons y ys)
  then show ?case by (cases "ys = []") auto
qed

lemma sum_list_sort_key:
  "sum_list (map f (sort_key k xs)) = sum_list (map (f :: 'a \<Rightarrow> nat) xs)"
proof -
  have "sum_mset (image_mset f (mset (sort_key k xs))) = sum_mset (image_mset f (mset xs))"
    by simp
  then show ?thesis by (simp only: sum_mset_sum_list flip: mset_map)
qed

lemma filter_indices:
  "map (\<lambda>i. c ! i) (filter (\<lambda>i. P (c ! i)) [0..<length c]) = filter P c"
proof -
  have "filter P (map (\<lambda>i. c ! i) [0..<length c]) = filter P c" by (simp add: map_nth)
  then show ?thesis by (simp add: filter_map comp_def)
qed

lemma kraft_lens_of:
  "sum_list (map (\<lambda>l. 2 ^ (32 - l)) (lens_of c)) = kraft32 c"
proof -
  let ?g = "\<lambda>e. (2::nat) ^ (32 - nat (symbol_length e))"
  let ?idx = "filter (\<lambda>i. symbol_length (c ! i) \<noteq> 0) [0..<length c]"
  have "sum_list (map (\<lambda>l. 2 ^ (32 - l)) (lens_of c))
          = sum_list (map (\<lambda>i. ?g (c ! i)) (sorted_ptrs c))"
    by (simp add: lens_of_def comp_def)
  also have "\<dots> = sum_list (map (\<lambda>i. ?g (c ! i)) ?idx)"
    unfolding sorted_ptrs_def by (rule sum_list_sort_key)
  also have "\<dots> = sum_list (map ?g (map (\<lambda>i. c ! i) ?idx))"
    by (simp add: comp_def)
  also have "\<dots> = kraft32 c"
    unfolding kraft32_def by (simp only: filter_indices [of c "\<lambda>e. symbol_length e \<noteq> 0"])
  finally show ?thesis .
qed

lemma go_int_small: "0 \<le> x \<Longrightarrow> x < 2 ^ 63 \<Longrightarrow> go_int x = x"
  by (simp add: go_int_def signed_take_bit_int_eq_self)

lemma calculateCodes_run:
  assumes lens: "\<forall>e\<in>set c. 0 \<le> symbol_length e \<and> symbol_length e < 2 ^ 46"
    and nz: "\<exists>e\<in>set c. symbol_length e \<noteq> 0"
  shows "\<exists>c' numl.
           calculateCodes c = Inr (c', map (\<lambda>i. c' ! i) (sorted_ptrs c), numl)
           \<and> assign_loop (sorted_ptrs c) c
                 (replicate (nat (symbol_length (c ! last (sorted_ptrs c))) + 1) 0) 0 (- 1)
               = Inr (c', numl)"
proof -
  let ?ps = "sorted_ptrs c"
  let ?lmax = "symbol_length (c ! last ?ps)"
  from nz have ne: "?ps \<noteq> []" by (simp add: sorted_ptrs_Nil_iff)
  then have "last ?ps \<in> set ?ps" by simp
  then have "last ?ps < length c" by (simp add: set_sorted_ptrs)
  with lens have lm: "0 \<le> ?lmax" "?lmax < 2 ^ 46" by simp_all
  then have g: "go_int (?lmax + 1) = ?lmax + 1" by (intro go_int_small) simp_all
  have n: "nat (?lmax + 1) = nat ?lmax + 1" using lm by simp
  have "\<forall>p\<in>set ?ps. 0 \<le> symbol_length (c ! p)
          \<and> symbol_length (c ! p) < int (length (replicate (nat ?lmax + 1) (0::u32)))"
  proof
    fix p assume p: "p \<in> set ?ps"
    then have "p < length c" by (simp add: set_sorted_ptrs)
    with lens have "0 \<le> symbol_length (c ! p)" by simp
    moreover have "symbol_length (c ! p) \<le> ?lmax"
      by (rule sorted_last_max [OF sorted_ptrs_lengths p])
    ultimately show "0 \<le> symbol_length (c ! p)
          \<and> symbol_length (c ! p) < int (length (replicate (nat ?lmax + 1) (0::u32)))"
      using lm by simp
  qed
  from assign_loop_ok [OF this]
  obtain c' numl where
    r: "assign_loop ?ps c (replicate (nat ?lmax + 1) 0) 0 (- 1) = Inr (c', numl)"
    by (metis surj_pair)
  with ne g n lm have "calculateCodes c = Inr (c', map (\<lambda>i. c' ! i) ?ps, numl)"
    by (simp add: calculateCodes_def Let_def make_panics_def maxAlloc_def)
  with r show ?thesis by blast
qed

lemma length_sorted_ptrs_le: "length (sorted_ptrs c) \<le> length c"
proof -
  have "length (filter (\<lambda>i. symbol_length (c ! i) \<noteq> 0) [0..<length c]) \<le> length [0..<length c]"
    by (rule length_filter_le)
  then show ?thesis by (simp add: sorted_ptrs_def)
qed

lemma calculateCodes_canon:
  assumes lens: "\<forall>e\<in>set c. 0 \<le> symbol_length e \<and> symbol_length e \<le> 32"
    and nz: "\<exists>e\<in>set c. symbol_length e \<noteq> 0"
    and kraft: "kraft32 c \<le> 2 ^ 32"
  shows "\<exists>c' numl.
           calculateCodes c = Inr (c', map (\<lambda>i. c' ! i) (sorted_ptrs c), numl)
           \<and> canon (lens_of c) (map (\<lambda>i. c' ! i) (sorted_ptrs c)) numl
           \<and> length c' = length c
           \<and> (\<forall>i. symbol_s (c' ! i) = symbol_s (c ! i)
                   \<and> symbol_length (c' ! i) = symbol_length (c ! i))"
proof -
  let ?ps = "sorted_ptrs c"
  let ?ls = "lens_of c"
  let ?lmax = "symbol_length (c ! last ?ps)"
  from lens have lens': "\<forall>e\<in>set c. 0 \<le> symbol_length e \<and> symbol_length e < 2 ^ 46"
    by fastforce
  from calculateCodes_run [OF lens' nz] obtain c' numl where
    cc: "calculateCodes c = Inr (c', map (\<lambda>i. c' ! i) ?ps, numl)"
    and run: "assign_loop ?ps c (replicate (nat ?lmax + 1) 0) 0 (- 1) = Inr (c', numl)"
    by blast
  let ?syms = "map (\<lambda>i. c' ! i) ?ps"
  from assign_loop_length [OF run]
  have lc: "length c' = length c" and ln: "length numl = nat ?lmax + 1" by simp_all
  have fields: "symbol_s (c' ! i) = symbol_s (c ! i)
                \<and> symbol_length (c' ! i) = symbol_length (c ! i)" for i
    by (rule assign_loop_fields [OF run])
  have pl: "0 < symbol_length (c ! p) \<and> symbol_length (c ! p) \<le> 32
            \<and> symbol_length (c ! p) \<le> ?lmax" if "p \<in> set ?ps" for p
  proof -
    from that have "p < length c" "symbol_length (c ! p) \<noteq> 0"
      by (simp_all add: set_sorted_ptrs)
    with lens have "0 < symbol_length (c ! p)" "symbol_length (c ! p) \<le> 32"
      by (simp_all add: order.strict_iff_order)
    moreover have "symbol_length (c ! p) \<le> ?lmax"
      by (rule sorted_last_max [OF sorted_ptrs_lengths that])
    ultimately show ?thesis by simp
  qed
  have c1: "\<forall>l\<in>set ?ls. 1 \<le> l \<and> l \<le> 32 \<and> l < length numl"
  proof
    fix l assume "l \<in> set ?ls"
    then obtain p where p: "p \<in> set ?ps" and l: "l = nat (symbol_length (c ! p))"
      by (auto simp: lens_of_def)
    from pl [OF p] show "1 \<le> l \<and> l \<le> 32 \<and> l < length numl"
      unfolding l ln by auto
  qed
  have "0 \<le> symbol_length (c ! p)" if "p \<in> set ?ps" for p
    using pl [OF that] by simp
  then have ints: "map (\<lambda>p. symbol_length (c ! p)) ?ps = map int ?ls"
    by (simp add: lens_of_def)
  have pos: "\<forall>l\<in>set (map int ?ls). 0 < l" using c1 by auto
  have cs: "code_seq 0 (- 1) (map int ?ls) = map of_nat (ncode_seq 0 0 ?ls)"
    using code_seq_start [OF pos] code_seq_of_nat [of 0 0 ?ls] by simp
  have c2: "\<forall>j<length ?ls. symbol_length (?syms ! j) = int (?ls ! j)
              \<and> symbol_code (?syms ! j) = of_nat (nc ?ls j)"
  proof (intro allI impI)
    fix j assume "j < length ?ls"
    then have j: "j < length ?ps" by (simp add: lens_of_def)
    then have pj: "?ps ! j \<in> set ?ps" by simp
    have "symbol_length (?syms ! j) = symbol_length (c ! (?ps ! j))"
      using j by (simp add: fields)
    also have "\<dots> = int (?ls ! j)" using pl [OF pj] j by (simp add: lens_of_def)
    finally have a: "symbol_length (?syms ! j) = int (?ls ! j)" .
    have "\<forall>p\<in>set ?ps. p < length c" by (simp add: set_sorted_ptrs)
    from assign_loop_code [OF run distinct_sorted_ptrs this j]
    have "symbol_code (c' ! (?ps ! j)) = map of_nat (ncode_seq 0 0 ?ls) ! j"
      by (simp only: ints cs)
    then have "symbol_code (?syms ! j) = of_nat (nc ?ls j)"
      using j by (simp add: nc_def lens_of_def)
    with a show "symbol_length (?syms ! j) = int (?ls ! j)
              \<and> symbol_code (?syms ! j) = of_nat (nc ?ls j)" by simp
  qed
  have c3: "\<forall>k<length numl. numl ! k = of_nat (count_list ?ls k)"
  proof (intro allI impI)
    fix k assume k: "k < length numl"
    then have k': "k < nat ?lmax + 1" by (simp add: ln)
    then have "k < length (replicate (nat ?lmax + 1) (0::u32))" by simp
    from assign_loop_numl [OF run this] nth_replicate [OF k', of "0::u32"]
    show "numl ! k = of_nat (count_list ?ls k)"
      by (simp only: lens_of_def add_0)
  qed
  have "length ?syms = length ?ls" by (simp add: lens_of_def)
  moreover have "sum_list (map (\<lambda>l. 2 ^ (32 - l)) ?ls) \<le> (2::nat) ^ 32"
    using kraft by (simp only: kraft_lens_of)
  ultimately have "canon ?ls ?syms numl"
    unfolding canon_def using c1 c2 c3 sorted_lens_of [of c] by blast
  with cc lc fields show ?thesis by blast
qed

lemma length_bl [simp]: "length (bl x l) = l"
  by (simp add: bl_def)

lemma nth_bl: "t < l \<Longrightarrow> bl x l ! t = bit x (l - 1 - t)"
  by (simp add: bl_def rev_nth)

lemma take_bl: "take k (bl y (k + d)) = bl (y div 2 ^ d) k"
proof (rule nth_equalityI)
  show "length (take k (bl y (k + d))) = length (bl (y div 2 ^ d) k)" by simp
next
  fix t assume "t < length (take k (bl y (k + d)))"
  then have t: "t < k" by simp
  then have "k + d - 1 - t = (k - 1 - t) + d" by simp
  then show "take k (bl y (k + d)) ! t = bl (y div 2 ^ d) k ! t"
    using t by (simp add: nth_bl bit_iff_odd div_exp_eq add.commute)
qed

lemma bl_inj:
  assumes "bl x l = bl y l" "x < 2 ^ l" "y < 2 ^ l"
  shows "x = y"
proof -
  have "bit x t = bit y t" if "t < l" for t
  proof -
    from that have "l - 1 - (l - 1 - t) = t" "l - 1 - t < l" by simp_all
    with assms(1) nth_bl [of "l - 1 - t" l x] nth_bl [of "l - 1 - t" l y]
    show ?thesis by simp
  qed
  then have "take_bit l x = take_bit l y"
    by (auto simp: bit_eq_iff bit_take_bit_iff)
  with assms(2,3) show ?thesis by (simp add: take_bit_nat_eq_self)
qed

lemma prefix_bl:
  assumes "prefix (bl x la) (bl y lb)" "x < 2 ^ la" "y < 2 ^ lb"
  shows "la \<le> lb \<and> y div 2 ^ (lb - la) = x"
proof -
  from assms(1) have le: "la \<le> lb" using prefix_length_le by fastforce
  from assms(1) have "bl x la = take la (bl y lb)"
    by (metis append_eq_conv_conj length_bl prefix_def)
  also have "\<dots> = bl (y div 2 ^ (lb - la)) la" using take_bl [of la y "lb - la"] le by simp
  finally have eq: "bl x la = bl (y div 2 ^ (lb - la)) la" .
  have "y < 2 ^ (lb - la) * 2 ^ la" using assms(3) le by (simp flip: power_add)
  then have "y div 2 ^ (lb - la) < 2 ^ la" by (simp add: less_mult_imp_div_less mult.commute)
  from bl_inj [OF eq assms(2) this] le show ?thesis by simp
qed

lemma bits_of_nat:
  assumes "l \<le> 32"
  shows "bits_of (ucast (of_nat x :: u32)) (int l) = bl x l"
proof -
  have "bit (ucast (of_nat x :: u32) :: u64) t = bit x t" if "t < l" for t
    using that assms by (simp add: bit_simps)
  then show ?thesis by (simp add: bits_of_def bl_def)
qed

lemma canon_code_bits:
  assumes "canon ls syms numl" "a < length ls"
  shows "code_bits (syms ! a) = bl (nc ls a) (ls ! a)"
proof -
  from assms have "symbol_length (syms ! a) = int (ls ! a)"
    "symbol_code (syms ! a) = of_nat (nc ls a)" "ls ! a \<le> 32"
    by (simp_all add: canon_def)
  then show ?thesis by (simp add: code_bits_def bits_of_nat)
qed

lemma canon_prefix_free:
  assumes c: "canon ls syms numl" and a: "a < length ls" and b: "b < length ls" and ne: "a \<noteq> b"
  shows "\<not> prefix (code_bits (syms ! a)) (code_bits (syms ! b))"
proof
  assume p: "prefix (code_bits (syms ! a)) (code_bits (syms ! b))"
  from c have srt: "sorted ls" and le32: "\<forall>l\<in>set ls. l \<le> 32"
    and kraft: "sum_list (map (\<lambda>l. 2 ^ (32 - l)) ls) \<le> (2::nat) ^ 32"
    by (simp_all add: canon_def)
  from p have "prefix (bl (nc ls a) (ls ! a)) (bl (nc ls b) (ls ! b))"
    by (simp only: canon_code_bits [OF c a] canon_code_bits [OF c b])
  from prefix_bl [OF this nc_bound [OF srt le32 a kraft] nc_bound [OF srt le32 b kraft]]
  have le: "ls ! a \<le> ls ! b" and eq: "nc ls b div 2 ^ (ls ! b - ls ! a) = nc ls a" by simp_all
  show False
  proof (cases "a < b")
    case True
    from nc_not_prefix [OF srt le32 True b] eq show False by simp
  next
    case False
    with ne have ba: "b < a" by simp
    then have "ls ! b \<le> ls ! a" using sorted_nth_mono [OF srt _ a, of b] by simp
    with le have "ls ! a = ls ! b" by simp
    with eq nc_not_prefix [OF srt le32 ba a] show False by simp
  qed
qed

text \<open>
  Claim C6, as the code has it. The claim fails for a codebook whose lengths violate
  Kraft's inequality: three entries of length 1 get the codes 0, 1 and 2, and read as bit
  strings of length 1 the first and the third are both \<open>0\<close>.
\<close>

theorem calculateCodes_prefix_free_counterexample:
  "(case calculateCodes [\<lparr>symbol_s = 0, symbol_code = 0, symbol_length = 1\<rparr>,
                         \<lparr>symbol_s = 1, symbol_code = 0, symbol_length = 1\<rparr>,
                         \<lparr>symbol_s = 2, symbol_code = 0, symbol_length = 1\<rparr>] of
      Inl err \<Rightarrow> False
    | Inr (c', syms, numl) \<Rightarrow>
        map symbol_code c' = [0, 1, 2]
        \<and> symbol_length (c' ! 0) \<noteq> 0 \<and> symbol_length (c' ! 2) \<noteq> 0
        \<and> code_bits (c' ! 0) = [False] \<and> code_bits (c' ! 2) = [False]
        \<and> prefix (code_bits (c' ! 0)) (code_bits (c' ! 2)))"
  by code_simp

text \<open>
  Claim C6, for lengths that fit the 32-bit codes.
  For a codebook whose lengths lie between 0 and 32, are not all zero, and satisfy
  Kraft's inequality (the sum of \<open>2^(32 - length)\<close> over the entries of nonzero length
  is at most \<open>2^32\<close>), \<open>calculateCodes\<close> succeeds and the codes it assigns are
  prefix-free: for two distinct entries of nonzero length, the code of neither, read as
  the bit string of its length with the most significant bit first, is a prefix of the
  other's.
\<close>

theorem calculateCodes_prefix_free:
  assumes lens: "\<forall>e\<in>set c. 0 \<le> symbol_length e \<and> symbol_length e \<le> 32"
    and nz: "\<exists>e\<in>set c. symbol_length e \<noteq> 0"
    and kraft: "kraft32 c \<le> 2 ^ 32"
  shows "\<exists>c' syms numl. calculateCodes c = Inr (c', syms, numl)
           \<and> (\<forall>i<length c'. \<forall>j<length c'.
                 i \<noteq> j \<and> symbol_length (c' ! i) \<noteq> 0 \<and> symbol_length (c' ! j) \<noteq> 0 \<longrightarrow>
                 \<not> prefix (code_bits (c' ! i)) (code_bits (c' ! j)))"
proof -
  let ?ps = "sorted_ptrs c"
  from calculateCodes_canon [OF assms] obtain c' numl where
    cc: "calculateCodes c = Inr (c', map (\<lambda>i. c' ! i) ?ps, numl)"
    and can: "canon (lens_of c) (map (\<lambda>i. c' ! i) ?ps) numl"
    and lc: "length c' = length c"
    and fields: "\<And>i. symbol_length (c' ! i) = symbol_length (c ! i)"
    by blast
  have "\<not> prefix (code_bits (c' ! i)) (code_bits (c' ! j))"
    if "i < length c'" "j < length c'" "i \<noteq> j" "symbol_length (c' ! i) \<noteq> 0"
       "symbol_length (c' ! j) \<noteq> 0" for i j
  proof -
    from that lc fields have "i \<in> set ?ps" "j \<in> set ?ps" by (simp_all add: set_sorted_ptrs)
    then obtain a b where a: "a < length ?ps" "?ps ! a = i" and b: "b < length ?ps" "?ps ! b = j"
      by (metis in_set_conv_nth)
    with that(3) have ne: "a \<noteq> b" by auto
    from a b have "a < length (lens_of c)" "b < length (lens_of c)" by (simp_all add: lens_of_def)
    from canon_prefix_free [OF can this ne] a b show ?thesis by simp
  qed
  with cc show ?thesis by blast
qed

theorem calculateCodes_prefix_free_witness:
  "kraft32 [\<lparr>symbol_s = 0, symbol_code = 0, symbol_length = 2\<rparr>, zero_symbol,
            \<lparr>symbol_s = 2, symbol_code = 0, symbol_length = 1\<rparr>,
            \<lparr>symbol_s = 3, symbol_code = 0, symbol_length = 2\<rparr>] = 2 ^ 32
   \<and> (case calculateCodes [\<lparr>symbol_s = 0, symbol_code = 0, symbol_length = 2\<rparr>, zero_symbol,
            \<lparr>symbol_s = 2, symbol_code = 0, symbol_length = 1\<rparr>,
            \<lparr>symbol_s = 3, symbol_code = 0, symbol_length = 2\<rparr>] of
        Inl err \<Rightarrow> False
      | Inr (c', syms, numl) \<Rightarrow>
          map symbol_code c' = [2, 0, 0, 3]
          \<and> \<not> prefix (code_bits (c' ! 2)) (code_bits (c' ! 0))
          \<and> \<not> prefix (code_bits (c' ! 0)) (code_bits (c' ! 3)))"
proof -
  let ?c = "[\<lparr>symbol_s = 0, symbol_code = 0, symbol_length = 2\<rparr>, zero_symbol,
            \<lparr>symbol_s = 2, symbol_code = 0, symbol_length = 1\<rparr>,
            \<lparr>symbol_s = 3, symbol_code = 0, symbol_length = 2\<rparr>]"
  have k: "kraft32 ?c = 2 ^ 32" by (simp add: kraft32_def zero_symbol_def)
  have h: "\<forall>e\<in>set ?c. 0 \<le> symbol_length e \<and> symbol_length e \<le> 32"
    "\<exists>e\<in>set ?c. symbol_length e \<noteq> 0" "kraft32 ?c \<le> 2 ^ 32"
    by (simp_all add: k) (simp_all add: zero_symbol_def)
  have ev: "(case calculateCodes ?c of Inl err \<Rightarrow> False
             | Inr (c', syms, numl) \<Rightarrow> map symbol_code c' = [2, 0, 0, 3] \<and> length c' = 4
                 \<and> map symbol_length c' = [2, 0, 1, 2])"
    by code_simp
  from calculateCodes_prefix_free [OF h] obtain c' syms numl where
    cc: "calculateCodes ?c = Inr (c', syms, numl)"
    and pf: "\<And>i j. i < length c' \<Longrightarrow> j < length c' \<Longrightarrow> i \<noteq> j \<Longrightarrow> symbol_length (c' ! i) \<noteq> 0
               \<Longrightarrow> symbol_length (c' ! j) \<noteq> 0
               \<Longrightarrow> \<not> prefix (code_bits (c' ! i)) (code_bits (c' ! j))"
    by blast
  from ev cc have e: "map symbol_code c' = [2, 0, 0, 3]" "length c' = 4"
    "map symbol_length c' = [2, 0, 1, 2]" by simp_all
  from e(3) have l: "symbol_length (c' ! 0) = 2" "symbol_length (c' ! 2) = 1"
    "symbol_length (c' ! 3) = 2"
    by (metis nth_map e(2) nth_Cons_0 numeral_2_eq_2 numeral_3_eq_3 nth_Cons_Suc
          zero_less_numeral length_map Suc_less_eq zero_less_Suc eval_nat_numeral(2) semiring_norm(26,27))+
  from pf [of 2 0] pf [of 0 3] e(2) l
  have "\<not> prefix (code_bits (c' ! 2)) (code_bits (c' ! 0))"
       "\<not> prefix (code_bits (c' ! 0)) (code_bits (c' ! 3))" by simp_all
  with k cc e show ?thesis by simp
qed

subsection \<open>The tree builder and the round trip\<close>

lemma mset_nodes_Swap:
  "i < length h \<Longrightarrow> j < length h \<Longrightarrow> mset (nodes_Swap h i j) = mset h"
  unfolding nodes_Swap_def by (simp add: mset_swap)

lemma mset_up: "j < length h \<Longrightarrow> mset (up h j) = mset h"
proof (induction h j rule: up.induct)
  case (1 h j)
  let ?i = "(j - 1) div 2"
  show ?case
  proof (cases "?i = j \<or> \<not> nodes_Less h j ?i")
    case True
    then show ?thesis by (subst up.simps) auto
  next
    case False
    from "1.prems" have i: "?i < length h" by simp
    from False "1.IH" [OF refl False] i have "mset (up (nodes_Swap h ?i j) ?i) = mset (nodes_Swap h ?i j)"
      by simp
    also have "\<dots> = mset h" by (rule mset_nodes_Swap [OF i "1.prems"])
    finally show ?thesis using False by (subst up.simps) (simp add: Let_def)
  qed
qed

lemma down_stop: "n \<le> 2 * i + 1 \<or> \<not> nodes_Less h (down_child h i n) i \<Longrightarrow> down h i n = h"
  by (subst down.simps) (auto simp: Let_def down_child_def)

lemma down_step:
  "\<not> n \<le> 2 * i + 1 \<Longrightarrow> nodes_Less h (down_child h i n) i \<Longrightarrow>
   down h i n = down (nodes_Swap h i (down_child h i n)) (down_child h i n) n"
  by (subst down.simps) (auto simp: Let_def down_child_def)

lemma down_child_bounds:
  "\<not> n \<le> 2 * i + 1 \<Longrightarrow> i < down_child h i n \<and> down_child h i n < n"
  by (auto simp: down_child_def)

lemma mset_down: "n \<le> length h \<Longrightarrow> mset (down h i n) = mset h"
proof (induction h i n rule: down.induct)
  case (1 h i n)
  define j where "j = down_child h i n"
  show ?case
  proof (cases "n \<le> 2 * i + 1 \<or> \<not> nodes_Less h j i")
    case True
    then show ?thesis unfolding j_def by (simp add: down_stop)
  next
    case False
    then have j1: "\<not> n \<le> 2 * i + 1" and l: "nodes_Less h j i" by auto
    from down_child_bounds [OF j1, of h] "1.prems" have b: "i < length h" "j < length h"
      by (auto simp: j_def)
    have "mset (down (nodes_Swap h i j) j n) = mset (nodes_Swap h i j)"
      using "1.IH" [OF refl j1 refl] l "1.prems" by (simp add: j_def down_child_def)
    also have "\<dots> = mset h" by (rule mset_nodes_Swap [OF b])
    finally show ?thesis using down_step [OF j1, of h] l by (simp add: j_def)
  qed
qed

lemma mset_heap_Push: "mset (heap_Push h x) = add_mset x (mset h)"
  by (simp add: heap_Push_def mset_up)

lemma mset_heap_Pop:
  assumes "h \<noteq> []" "heap_Pop h = (x, h')"
  shows "mset h = add_mset x (mset h')"
proof -
  let ?n = "length h - 1"
  let ?h1 = "down (nodes_Swap h 0 ?n) 0 ?n"
  from assms(1) have n: "0 < length h" "?n < length h" by simp_all
  have "mset ?h1 = mset (nodes_Swap h 0 ?n)" by (rule mset_down) simp
  also have "\<dots> = mset h" by (rule mset_nodes_Swap [OF n])
  finally have m: "mset ?h1 = mset h" .
  from n have "?h1 \<noteq> []" by (metis length_down length_nodes_Swap length_greater_0_conv)
  then have "mset ?h1 = add_mset (last ?h1) (mset (butlast ?h1))"
    by (metis append_butlast_last_id mset.simps(2) mset_append union_mset_add_mset_right
          add.right_neutral mset.simps(1))
  with m assms(2) show ?thesis by (simp add: heap_Pop_def Let_def)
qed

lemma forest_leaves_add:
  "mset h = add_mset x (mset h') \<Longrightarrow> forest_leaves h = mset (leaves x) + forest_leaves h'"
  by (simp add: forest_leaves_def)

lemma build_leaves:
  "h \<noteq> [] \<Longrightarrow> \<exists>t. build h = [t] \<and> mset (leaves t) = forest_leaves h"
proof (induction h rule: build.induct)
  case (1 n)
  show ?case
  proof (cases "1 < length n")
    case False
    with "1.prems" obtain t where t: "n = [t]"
      by (cases n) (auto simp: not_less)
    then show ?thesis by (simp add: build.simps forest_leaves_def)
  next
    case True
    obtain n1 h1 where p1: "heap_Pop n = (n1, h1)" by (cases "heap_Pop n")
    obtain n2 h2 where p2: "heap_Pop h1 = (n2, h2)" by (cases "heap_Pop h1")
    let ?h3 = "heap_Push h2 (Inner (weight n1 + weight n2) n2 n1)"
    from True p1 have l1: "length h1 = length n - 1" by (metis length_heap_Pop snd_conv)
    with True have ne1: "h1 \<noteq> []" by auto
    have ne3: "?h3 \<noteq> []" by (metis length_heap_Push list.size(3) nat.distinct(1))
    from mset_heap_Pop [OF "1.prems" p1] mset_heap_Pop [OF ne1 p2]
    have "forest_leaves n = mset (leaves n1) + (mset (leaves n2) + forest_leaves h2)"
      by (simp add: forest_leaves_def)
    moreover have "forest_leaves ?h3 = mset (leaves n2) + mset (leaves n1) + forest_leaves h2"
      by (simp add: forest_leaves_def mset_heap_Push)
    ultimately have fl: "forest_leaves ?h3 = forest_leaves n" by simp
    from "1.IH" [OF True p1 [symmetric] refl p2 [symmetric] refl ne3]
    obtain t where "build ?h3 = [t]" "mset (leaves t) = forest_leaves ?h3" by blast
    with True p1 p2 fl show ?thesis by (subst build.simps) simp
  qed
qed

lemma mset_push_counts:
  "mset (push_counts i counts n) = mset n + mset (count_leaves i counts)"
  by (induction counts arbitrary: i n) (simp_all add: mset_heap_Push)

lemma leaves_count_leaves: "t \<in> set (count_leaves i counts) \<Longrightarrow> leaves t = [t]"
  by (induction counts arbitrary: i) (auto split: if_splits)

lemma forest_leaves_of_leaves:
  "\<forall>t\<in>set h. leaves t = [t] \<Longrightarrow> forest_leaves h = mset h"
proof (induction h)
  case Nil
  show ?case by (simp add: forest_leaves_def)
next
  case (Cons a h)
  then show ?case by (simp add: forest_leaves_def)
qed

lemma build_initial:
  "\<exists>t. build (heap_Push (push_counts 0 counts []) (Leaf 0 eof)) = [t]
        \<and> mset (leaves t) = add_mset (Leaf 0 eof) (mset (count_leaves 0 counts))"
proof -
  let ?h = "heap_Push (push_counts 0 counts []) (Leaf 0 eof)"
  have m: "mset ?h = add_mset (Leaf 0 eof) (mset (count_leaves 0 counts))"
    by (simp add: mset_heap_Push mset_push_counts)
  have ne: "?h \<noteq> []" by (metis length_heap_Push list.size(3) nat.distinct(1))
  have "forest_leaves ?h = forest_leaves (Leaf 0 eof # count_leaves 0 counts)"
    using m by (simp add: forest_leaves_def)
  also have "\<dots> = mset (Leaf 0 eof # count_leaves 0 counts)"
    by (rule forest_leaves_of_leaves) (auto simp: leaves_count_leaves)
  finally have "forest_leaves ?h = add_mset (Leaf 0 eof) (mset (count_leaves 0 counts))" by simp
  with build_leaves [OF ne] show ?thesis by auto
qed

lemma length_fold_set_slot [simp]: "length (fold set_slot lds m) = length m"
  by (induction lds arbitrary: m) (simp_all add: set_slot_def)

lemma map_fst_ld: "map fst (ld t d) = map sym (leaves t)"
  by (induction t arbitrary: d) simp_all

lemma walk_fold:
  "\<forall>x\<in>set (ld t d). unat (fst x) < length m \<Longrightarrow>
   walk t (int d) m = Inr (fold set_slot (ld t d) m)"
proof (induction t arbitrary: d m)
  case (Leaf w s)
  then show ?case by (simp add: set_slot_def)
next
  case (Inner w a b)
  from Inner.prems have a: "\<forall>x\<in>set (ld a (d + 1)). unat (fst x) < length m"
    and b: "\<forall>x\<in>set (ld b (d + 1)). unat (fst x) < length (fold set_slot (ld a (d + 1)) m)"
    by simp_all
  have i: "int d + 1 = int (d + 1)" by simp
  have "walk a (int (d + 1)) m = Inr (fold set_slot (ld a (d + 1)) m)"
    by (rule Inner.IH(1) [OF a])
  moreover have "walk b (int (d + 1)) (fold set_slot (ld a (d + 1)) m)
                   = Inr (fold set_slot (ld b (d + 1)) (fold set_slot (ld a (d + 1)) m))"
    by (rule Inner.IH(2) [OF b])
  ultimately show ?case
    unfolding walk.simps i by simp
qed

lemma fold_set_slot_other:
  "i \<notin> (\<lambda>x. unat (fst x)) ` set lds \<Longrightarrow> fold set_slot lds m ! i = m ! i"
  by (induction lds arbitrary: m) (simp_all add: set_slot_def)

lemma fold_set_slot_nth:
  "distinct (map fst lds) \<Longrightarrow> (s, dp) \<in> set lds \<Longrightarrow> unat s < length m \<Longrightarrow>
   fold set_slot lds m ! unat s = \<lparr>symbol_s = s, symbol_code = 0, symbol_length = int dp\<rparr>"
proof (induction lds arbitrary: m)
  case Nil
  then show ?case by simp
next
  case (Cons x lds)
  show ?case
  proof (cases "x = (s, dp)")
    case True
    from Cons.prems(1) True have "s \<notin> fst ` set lds" by auto
    then have "unat s \<notin> (\<lambda>x. unat (fst x)) ` set lds"
      by (auto simp: image_iff word_unat_eq_iff)
    then have "fold set_slot lds (set_slot x m) ! unat s = set_slot x m ! unat s"
      by (rule fold_set_slot_other)
    moreover have "set_slot x m ! unat s
                     = \<lparr>symbol_s = s, symbol_code = 0, symbol_length = int dp\<rparr>"
      using True Cons.prems(3) by (simp add: set_slot_def)
    ultimately show ?thesis by simp
  next
    case False
    with Cons.prems have "distinct (map fst lds)" "(s, dp) \<in> set lds"
      "unat s < length (set_slot x m)" by (simp_all add: set_slot_def)
    from Cons.IH [OF this] show ?thesis by simp
  qed
qed

lemma ld_depth_ge: "x \<in> set (ld t d) \<Longrightarrow> d \<le> snd x"
proof (induction t arbitrary: d)
  case (Leaf w s)
  then show ?case by simp
next
  case (Inner w a b)
  then show ?case by fastforce
qed

lemma ld_Inner_depth_pos: "x \<in> set (ld (Inner w a b) 0) \<Longrightarrow> 1 \<le> snd x"
  using ld_depth_ge [of x a 1] ld_depth_ge [of x b 1] by auto

lemma ld_nonempty: "ld t d \<noteq> []"
  by (induction t arbitrary: d) simp_all

lemma ld_depth_less: "x \<in> set (ld t d) \<Longrightarrow> snd x < d + length (ld t d)"
proof (induction t arbitrary: d)
  case (Leaf w s)
  then show ?case by simp
next
  case (Inner w a b)
  have n: "1 \<le> length (ld a (d + 1))" "1 \<le> length (ld b (d + 1))"
    using ld_nonempty [of a "d + 1"] ld_nonempty [of b "d + 1"]
    by (simp_all add: Suc_le_eq)
  have l: "length (ld (Inner w a b) d) = length (ld a (d + 1)) + length (ld b (d + 1))"
    by simp
  from Inner.prems have "x \<in> set (ld a (d + 1)) \<or> x \<in> set (ld b (d + 1))" by simp
  then show ?case
  proof
    assume "x \<in> set (ld a (d + 1))"
    from Inner.IH(1) [OF this] n show ?thesis unfolding l by linarith
  next
    assume "x \<in> set (ld b (d + 1))"
    from Inner.IH(2) [OF this] n show ?thesis unfolding l by linarith
  qed
qed

lemma ld_kraft:
  "\<forall>x\<in>set (ld t d). snd x \<le> D \<Longrightarrow>
   sum_list (map (\<lambda>x. 2 ^ (D - snd x)) (ld t d)) = (2::nat) ^ (D - d)"
proof (induction t arbitrary: d)
  case (Leaf w s)
  then show ?case by simp
next
  case (Inner w a b)
  obtain x where x: "x \<in> set (ld a (d + 1))"
    using ld_nonempty [of a "d + 1"] by (cases "ld a (d + 1)") auto
  then have "d + 1 \<le> snd x" by (rule ld_depth_ge)
  moreover from x Inner.prems have "snd x \<le> D" by simp
  ultimately have d: "d + 1 \<le> D" by simp
  from Inner have "sum_list (map (\<lambda>x. 2 ^ (D - snd x)) (ld a (d + 1))) = (2::nat) ^ (D - (d + 1))"
    "sum_list (map (\<lambda>x. 2 ^ (D - snd x)) (ld b (d + 1))) = (2::nat) ^ (D - (d + 1))"
    by simp_all
  moreover from d have "(2::nat) ^ (D - d) = 2 * 2 ^ (D - (d + 1))"
    by (metis Suc_diff_Suc Suc_eq_plus1 less_eq_Suc_le power_Suc)
  ultimately show ?case by simp
qed

lemma kraft32_append: "kraft32 (xs @ ys) = kraft32 xs + kraft32 ys"
  by (simp add: kraft32_def)

lemma kraft32_update:
  assumes "i < length m" "symbol_length (m ! i) = 0" "symbol_length e \<noteq> 0"
  shows "kraft32 (m[i := e]) = kraft32 m + 2 ^ (32 - nat (symbol_length e))"
proof -
  have "m[i := e] = take i m @ e # drop (Suc i) m"
    by (rule upd_conv_take_nth_drop [OF assms(1)])
  moreover have "m = take i m @ m ! i # drop (Suc i) m"
    by (rule id_take_nth_drop [OF assms(1)])
  ultimately have "kraft32 (m[i := e]) = kraft32 (take i m) + kraft32 [e] + kraft32 (drop (Suc i) m)"
    "kraft32 m = kraft32 (take i m) + kraft32 [m ! i] + kraft32 (drop (Suc i) m)"
    by (metis kraft32_append append_Cons append_Nil add.assoc)+
  with assms(2,3) show ?thesis by (simp add: kraft32_def)
qed

lemma kraft32_fold_set_slot:
  "distinct (map fst lds) \<Longrightarrow>
   \<forall>x\<in>set lds. unat (fst x) < length m \<and> symbol_length (m ! unat (fst x)) = 0 \<and> 1 \<le> snd x \<Longrightarrow>
   kraft32 (fold set_slot lds m) = kraft32 m + sum_list (map (\<lambda>x. 2 ^ (32 - snd x)) lds)"
proof (induction lds arbitrary: m)
  case Nil
  show ?case by simp
next
  case (Cons x lds)
  let ?e = "\<lparr>symbol_s = fst x, symbol_code = 0, symbol_length = int (snd x)\<rparr>"
  let ?m1 = "set_slot x m"
  from Cons.prems(2) have x: "unat (fst x) < length m" "symbol_length (m ! unat (fst x)) = 0"
    "1 \<le> snd x" by simp_all
  have k1: "kraft32 ?m1 = kraft32 m + 2 ^ (32 - snd x)"
    unfolding set_slot_def using kraft32_update [OF x(1,2), of ?e] x(3) by simp
  have "\<forall>y\<in>set lds. unat (fst y) < length ?m1 \<and> symbol_length (?m1 ! unat (fst y)) = 0
          \<and> 1 \<le> snd y"
  proof
    fix y assume y: "y \<in> set lds"
    from Cons.prems(1) have "fst x \<notin> fst ` set lds" by simp
    with y have "fst y \<noteq> fst x" by (metis imageI)
    then have "unat (fst y) \<noteq> unat (fst x)" by (simp add: word_unat_eq_iff)
    with Cons.prems(2) y show "unat (fst y) < length ?m1
        \<and> symbol_length (?m1 ! unat (fst y)) = 0 \<and> 1 \<le> snd y"
      by (simp add: set_slot_def)
  qed
  from Cons.IH [OF _ this] Cons.prems(1) k1 show ?case by simp
qed

lemma count_leaves_elem:
  "t \<in> set (count_leaves i counts) \<longleftrightarrow>
   (\<exists>k<length counts. t = Leaf (counts ! k) (of_nat (i + k)) \<and> counts ! k \<noteq> 0)"
proof (induction counts arbitrary: i)
  case Nil
  show ?case by simp
next
  case (Cons v vs)
  have "(\<exists>k<length (v # vs). t = Leaf ((v # vs) ! k) (of_nat (i + k)) \<and> (v # vs) ! k \<noteq> 0)
        \<longleftrightarrow> (t = Leaf v (of_nat i) \<and> v \<noteq> 0)
            \<or> (\<exists>k<length vs. t = Leaf (vs ! k) (of_nat (i + 1 + k)) \<and> vs ! k \<noteq> 0)"
    (is "?L \<longleftrightarrow> ?A \<or> ?B")
  proof
    assume ?L
    then obtain k where k: "k < length (v # vs)" "t = Leaf ((v # vs) ! k) (of_nat (i + k))"
      "(v # vs) ! k \<noteq> 0" by blast
    show "?A \<or> ?B"
    proof (cases k)
      case 0
      with k show ?thesis by simp
    next
      case (Suc k')
      with k have "k' < length vs \<and> t = Leaf (vs ! k') (of_nat (i + 1 + k')) \<and> vs ! k' \<noteq> 0"
        by simp
      then show ?thesis by blast
    qed
  next
    assume "?A \<or> ?B"
    then show ?L
    proof
      assume ?A
      then have "0 < length (v # vs) \<and> t = Leaf ((v # vs) ! 0) (of_nat (i + 0)) \<and> (v # vs) ! 0 \<noteq> 0"
        by simp
      then show ?L by blast
    next
      assume ?B
      then obtain k where "k < length vs" "t = Leaf (vs ! k) (of_nat (i + 1 + k))" "vs ! k \<noteq> 0"
        by blast
      then have "Suc k < length (v # vs) \<and> t = Leaf ((v # vs) ! Suc k) (of_nat (i + Suc k))
                 \<and> (v # vs) ! Suc k \<noteq> 0" by simp
      then show ?L by blast
    qed
  qed
  with Cons.IH [of "i + 1"] show ?case by auto
qed

lemma distinct_count_leaves:
  "i + length counts \<le> 2 ^ 32 \<Longrightarrow> distinct (map sym (count_leaves i counts))"
proof (induction counts arbitrary: i)
  case Nil
  show ?case by simp
next
  case (Cons v vs)
  from Cons.prems have d: "distinct (map sym (count_leaves (i + 1) vs))"
    by (intro Cons.IH) simp
  have "(of_nat i :: u32) \<notin> sym ` set (count_leaves (i + 1) vs)"
  proof
    assume "(of_nat i :: u32) \<in> sym ` set (count_leaves (i + 1) vs)"
    then obtain t where t: "t \<in> set (count_leaves (i + 1) vs)" "of_nat i = sym t" by blast
    from t(1) obtain k where "k < length vs" "t = Leaf (vs ! k) (of_nat (i + 1 + k))"
      unfolding count_leaves_elem by blast
    with t(2) have k: "k < length vs" "(of_nat i :: u32) = of_nat (i + 1 + k)"
      by (simp_all only: node.sel)
    from Cons.prems k(1) have "i < 2 ^ 32" "i + 1 + k < 2 ^ 32" by simp_all
    from iffD1 [OF of_nat_inj32 [OF this] k(2)] show False by simp
  qed
  with d show ?case by simp
qed

lemma huff_tree_leaves:
  "mset (leaves (huff_tree counts))
     = add_mset (Leaf 0 (of_nat (length counts))) (mset (count_leaves 0 counts))"
  using build_initial [of counts "of_nat (length counts)"] by (auto simp: huff_tree_def)

lemma build_huff_tree:
  "build (heap_Push (push_counts 0 counts []) (Leaf 0 (of_nat (length counts))))
     = [huff_tree counts]"
  using build_initial [of counts "of_nat (length counts)"] by (auto simp: huff_tree_def)

lemma set_huff_leaves:
  "set (leaves (huff_tree counts))
     = insert (Leaf 0 (of_nat (length counts))) (set (count_leaves 0 counts))"
  using huff_tree_leaves [of counts] by (metis set_mset_add_mset_insert set_mset_mset)

lemma distinct_huff_syms:
  assumes "length counts < 2 ^ 32"
  shows "distinct (map sym (leaves (huff_tree counts)))"
proof -
  let ?eof = "of_nat (length counts) :: u32"
  have "mset (map sym (leaves (huff_tree counts)))
          = mset (map sym (Leaf 0 ?eof # count_leaves 0 counts))"
    using huff_tree_leaves [of counts] by (metis mset.simps(2) mset_map)
  moreover have "distinct (map sym (Leaf 0 ?eof # count_leaves 0 counts))"
  proof -
    have "?eof \<notin> sym ` set (count_leaves 0 counts)"
    proof
      assume "?eof \<in> sym ` set (count_leaves 0 counts)"
      then obtain t where t: "t \<in> set (count_leaves 0 counts)" "?eof = sym t" by blast
      from t(1) obtain k where "k < length counts" "t = Leaf (counts ! k) (of_nat (0 + k))"
        unfolding count_leaves_elem by blast
      with t(2) have k: "k < length counts" "?eof = of_nat k"
        by (simp_all only: node.sel add_0)
      from k(1) assms have "length counts < 2 ^ 32" "k < 2 ^ 32" by simp_all
      from iffD1 [OF of_nat_inj32 [OF this] k(2)] k(1) show False by simp
    qed
    moreover have "distinct (map sym (count_leaves 0 counts))"
      using assms by (intro distinct_count_leaves) simp
    ultimately show ?thesis by simp
  qed
  ultimately show ?thesis by (metis mset_eq_imp_distinct_iff)
qed

lemma huff_tree_Inner:
  assumes "\<exists>v\<in>set counts. v \<noteq> 0"
  shows "\<exists>w a b. huff_tree counts = Inner w a b"
proof (cases "huff_tree counts")
  case (Leaf w s)
  from assms obtain k where "k < length counts" "counts ! k \<noteq> 0"
    by (metis in_set_conv_nth)
  then have "Leaf (counts ! k) (of_nat (0 + k)) \<in> set (count_leaves 0 counts)"
    unfolding count_leaves_elem by blast
  then have "count_leaves 0 counts \<noteq> []" by auto
  then have "1 < size (add_mset (Leaf 0 (of_nat (length counts)) :: node) (mset (count_leaves 0 counts)))"
    by (cases "count_leaves 0 counts") simp_all
  with huff_tree_leaves [of counts] Leaf
  have "1 < size (mset [Leaf w s])" by simp
  then show ?thesis by simp
next
  case (Inner w a b)
  then show ?thesis by blast
qed

lemma length_count_leaves: "length (count_leaves i counts) \<le> length counts"
  by (induction counts arbitrary: i) (simp_all add: le_SucI)

lemma length_walked [simp]: "length (walked counts) = length counts + 1"
  by (simp add: walked_def)

lemma distinct_ld_huff:
  "length counts < 2 ^ 32 \<Longrightarrow> distinct (map fst (ld (huff_tree counts) 0))"
  by (simp add: map_fst_ld distinct_huff_syms)

lemma ld_huff_sym:
  assumes "x \<in> set (ld (huff_tree counts) 0)"
  shows "fst x = of_nat (length counts)
         \<or> (\<exists>k<length counts. fst x = of_nat k \<and> counts ! k \<noteq> 0)"
proof -
  from assms have "fst x \<in> set (map fst (ld (huff_tree counts) 0))" by simp
  then have "fst x \<in> sym ` set (leaves (huff_tree counts))" by (simp add: map_fst_ld)
  then obtain t where t: "t \<in> set (leaves (huff_tree counts))" "fst x = sym t" by blast
  from t(1) have "t = Leaf 0 (of_nat (length counts)) \<or> t \<in> set (count_leaves 0 counts)"
    by (simp add: set_huff_leaves)
  then show ?thesis
  proof
    assume "t = Leaf 0 (of_nat (length counts))"
    with t(2) show ?thesis by simp
  next
    assume "t \<in> set (count_leaves 0 counts)"
    then obtain k where "k < length counts" "t = Leaf (counts ! k) (of_nat (0 + k))"
      "counts ! k \<noteq> 0" unfolding count_leaves_elem by blast
    with t(2) show ?thesis by auto
  qed
qed

lemma ld_huff_bounds:
  assumes len: "length counts < 2 ^ 32 - 1" and nz: "\<exists>v\<in>set counts. v \<noteq> 0"
    and x: "x \<in> set (ld (huff_tree counts) 0)"
  shows "unat (fst x) < length counts + 1" and "1 \<le> snd x" and "snd x \<le> length counts"
proof -
  from ld_huff_sym [OF x] show "unat (fst x) < length counts + 1"
  proof
    assume "fst x = of_nat (length counts)"
    moreover have "unat (of_nat (length counts) :: u32) = length counts"
      using len by (intro unat_of_nat32) simp
    ultimately show ?thesis by simp
  next
    assume "\<exists>k<length counts. fst x = of_nat k \<and> counts ! k \<noteq> 0"
    then obtain k where k: "k < length counts" "fst x = of_nat k" by blast
    have "unat (of_nat k :: u32) = k" using len k(1) by (intro unat_of_nat32) simp
    with k show ?thesis by simp
  qed
  from huff_tree_Inner [OF nz] obtain w a b where "huff_tree counts = Inner w a b" by blast
  with x show "1 \<le> snd x" using ld_Inner_depth_pos by metis
  have "length (ld (huff_tree counts) 0) = length (leaves (huff_tree counts))"
    by (metis length_map map_fst_ld)
  also have "\<dots> = size (mset (leaves (huff_tree counts)))" by simp
  also have "\<dots> = 1 + length (count_leaves 0 counts)"
    unfolding huff_tree_leaves by simp
  also have "\<dots> \<le> 1 + length counts" using length_count_leaves [of 0 counts] by simp
  finally have "length (ld (huff_tree counts) 0) \<le> 1 + length counts" .
  with ld_depth_less [OF x] show "snd x \<le> length counts" by simp
qed

lemma walk_huff_tree:
  assumes len: "length counts < 2 ^ 32 - 1" and nz: "\<exists>v\<in>set counts. v \<noteq> 0"
  shows "walk (huff_tree counts) 0
           (replicate (unat ((of_nat (length counts) :: u32) + 1)) zero_symbol)
         = Inr (walked counts)"
proof -
  have "(of_nat (length counts) :: u32) + 1 = of_nat (length counts + 1)" by simp
  moreover have "unat (of_nat (length counts + 1) :: u32) = length counts + 1"
    using len by (intro unat_of_nat32) simp
  ultimately have u: "unat ((of_nat (length counts) :: u32) + 1) = length counts + 1"
    by (simp only:)
  have "\<forall>x\<in>set (ld (huff_tree counts) 0).
          unat (fst x) < length (replicate (length counts + 1) zero_symbol)"
    using ld_huff_bounds(1) [OF len nz] by simp
  from walk_fold [OF this] show ?thesis
    unfolding u walked_def by simp
qed

lemma walked_leaf:
  assumes len: "length counts < 2 ^ 32 - 1" and nz: "\<exists>v\<in>set counts. v \<noteq> 0"
    and x: "x \<in> set (ld (huff_tree counts) 0)"
  shows "walked counts ! unat (fst x)
           = \<lparr>symbol_s = fst x, symbol_code = 0, symbol_length = int (snd x)\<rparr>"
proof -
  from len have "length counts < 2 ^ 32" by simp
  from distinct_ld_huff [OF this] have d: "distinct (map fst (ld (huff_tree counts) 0))" .
  have "(fst x, snd x) \<in> set (ld (huff_tree counts) 0)" using x by simp
  from fold_set_slot_nth [OF d this] ld_huff_bounds(1) [OF len nz x]
  show ?thesis by (simp add: walked_def)
qed

lemma walked_entry:
  assumes len: "length counts < 2 ^ 32 - 1" and nz: "\<exists>v\<in>set counts. v \<noteq> 0"
    and e: "e \<in> set (walked counts)"
  shows "e = zero_symbol
         \<or> (\<exists>x\<in>set (ld (huff_tree counts) 0).
               e = \<lparr>symbol_s = fst x, symbol_code = 0, symbol_length = int (snd x)\<rparr>)"
proof -
  from e obtain i where i: "i < length counts + 1" "e = walked counts ! i"
    by (metis in_set_conv_nth length_walked)
  show ?thesis
  proof (cases "i \<in> (\<lambda>x. unat (fst x)) ` set (ld (huff_tree counts) 0)")
    case True
    then obtain x where x: "x \<in> set (ld (huff_tree counts) 0)" "i = unat (fst x)" by blast
    from walked_leaf [OF len nz x(1)] x i show ?thesis by blast
  next
    case False
    from fold_set_slot_other [OF False] i show ?thesis
      by (simp add: walked_def del: replicate_Suc)
  qed
qed

lemma walked_lengths:
  assumes len: "length counts < 2 ^ 32 - 1" and nz: "\<exists>v\<in>set counts. v \<noteq> 0"
    and e: "e \<in> set (walked counts)"
  shows "0 \<le> symbol_length e \<and> symbol_length e < 2 ^ 46"
proof -
  from walked_entry [OF len nz e] show ?thesis
  proof
    assume "e = zero_symbol"
    then show ?thesis by (simp add: zero_symbol_def)
  next
    assume "\<exists>x\<in>set (ld (huff_tree counts) 0).
               e = \<lparr>symbol_s = fst x, symbol_code = 0, symbol_length = int (snd x)\<rparr>"
    then obtain x where x: "x \<in> set (ld (huff_tree counts) 0)"
      "e = \<lparr>symbol_s = fst x, symbol_code = 0, symbol_length = int (snd x)\<rparr>" by blast
    from ld_huff_bounds(3) [OF len nz x(1)] len have "int (snd x) < 2 ^ 46" by simp
    with x(2) show ?thesis by simp
  qed
qed

lemma walked_symbol:
  assumes len: "length counts < 2 ^ 32 - 1" and k: "k < length counts" "counts ! k \<noteq> 0"
  shows "\<exists>dp\<ge>1. walked counts ! k
           = \<lparr>symbol_s = of_nat k, symbol_code = 0, symbol_length = int dp\<rparr>"
proof -
  from k have nz: "\<exists>v\<in>set counts. v \<noteq> 0" by (metis nth_mem)
  from k have "Leaf (counts ! k) (of_nat (0 + k)) \<in> set (count_leaves 0 counts)"
    unfolding count_leaves_elem by blast
  then have "Leaf (counts ! k) (of_nat k) \<in> set (leaves (huff_tree counts))"
    by (simp add: set_huff_leaves)
  then have "(of_nat k :: u32) \<in> set (map sym (leaves (huff_tree counts)))" by force
  then have "(of_nat k :: u32) \<in> set (map fst (ld (huff_tree counts) 0))"
    by (simp only: map_fst_ld)
  then obtain x where x: "x \<in> set (ld (huff_tree counts) 0)" "fst x = of_nat k" by auto
  have "unat (of_nat k :: u32) = k" using len k(1) by (intro unat_of_nat32) simp
  with walked_leaf [OF len nz x(1)] ld_huff_bounds(2) [OF len nz x(1)] x(2)
  show ?thesis by auto
qed

lemma walked_eof:
  assumes len: "length counts < 2 ^ 32 - 1" and nz: "\<exists>v\<in>set counts. v \<noteq> 0"
  shows "\<exists>dp\<ge>1. walked counts ! length counts
           = \<lparr>symbol_s = of_nat (length counts), symbol_code = 0, symbol_length = int dp\<rparr>"
proof -
  have "Leaf 0 (of_nat (length counts)) \<in> set (leaves (huff_tree counts))"
    by (simp add: set_huff_leaves)
  then have "(of_nat (length counts) :: u32) \<in> set (map sym (leaves (huff_tree counts)))"
    by force
  then have "(of_nat (length counts) :: u32) \<in> set (map fst (ld (huff_tree counts) 0))"
    by (simp only: map_fst_ld)
  then obtain x where x: "x \<in> set (ld (huff_tree counts) 0)" "fst x = of_nat (length counts)"
    by auto
  have "unat (of_nat (length counts) :: u32) = length counts"
    using len by (intro unat_of_nat32) simp
  with walked_leaf [OF len nz x(1)] ld_huff_bounds(2) [OF len nz x(1)] x(2)
  show ?thesis by auto
qed

lemma kraft32_replicate_zero: "kraft32 (replicate n zero_symbol) = 0"
  by (induction n) (simp_all add: kraft32_def zero_symbol_def)

lemma kraft32_walked:
  assumes len: "length counts < 2 ^ 32 - 1" and nz: "\<exists>v\<in>set counts. v \<noteq> 0"
    and le32: "\<forall>e\<in>set (walked counts). symbol_length e \<le> 32"
  shows "kraft32 (walked counts) = 2 ^ 32"
proof -
  let ?lds = "ld (huff_tree counts) 0"
  let ?m0 = "replicate (length counts + 1) zero_symbol"
  from len have "length counts < 2 ^ 32" by simp
  from distinct_ld_huff [OF this] have d: "distinct (map fst ?lds)" .
  have "\<forall>x\<in>set ?lds. unat (fst x) < length ?m0 \<and> symbol_length (?m0 ! unat (fst x)) = 0
          \<and> 1 \<le> snd x"
  proof
    fix x assume x: "x \<in> set ?lds"
    from ld_huff_bounds(1,2) [OF len nz x]
    show "unat (fst x) < length ?m0 \<and> symbol_length (?m0 ! unat (fst x)) = 0 \<and> 1 \<le> snd x"
      by (simp add: zero_symbol_def del: replicate_Suc)
  qed
  from kraft32_fold_set_slot [OF d this]
  have "kraft32 (walked counts) = sum_list (map (\<lambda>x. 2 ^ (32 - snd x)) ?lds)"
    by (simp add: walked_def kraft32_replicate_zero del: replicate_Suc)
  also have "\<dots> = 2 ^ (32 - 0)"
  proof (rule ld_kraft)
    show "\<forall>x\<in>set ?lds. snd x \<le> 32"
    proof
      fix x assume x: "x \<in> set ?lds"
      from ld_huff_bounds(1) [OF len nz x]
      have "walked counts ! unat (fst x) \<in> set (walked counts)" by simp
      with le32 have "symbol_length (walked counts ! unat (fst x)) \<le> 32" by blast
      then show "snd x \<le> 32" by (simp add: walked_leaf [OF len nz x])
    qed
  qed
  finally show ?thesis by simp
qed

lemma NewEncoder_walked:
  assumes len: "length counts < 2 ^ 32 - 1" and nz: "\<exists>v\<in>set counts. v \<noteq> 0"
  shows "NewEncoder counts =
           (case calculateCodes (walked counts) of
              Inl err \<Rightarrow> Inl err
            | Inr (m2, sptrs, numl) \<Rightarrow>
                Inr \<lparr>e_eof = of_nat (length counts), e_m = m2, e_sym = sptrs, e_numl = numl\<rparr>)"
  unfolding NewEncoder_def Let_def build_huff_tree
  by (simp add: walk_huff_tree [OF len nz])

lemma ReadSymbol_canon:
  assumes c: "canon ls (d_sym d) (d_numl d)" and n32: "length ls < 2 ^ 32"
    and a: "a < length ls"
  shows "ReadSymbol bits_ReadBit d (code_bits (d_sym d ! a) @ rest)
           = (Inr (sym_out d (symbol_s (d_sym d ! a))), rest)"
proof -
  from c a have srt: "sorted ls" and le32: "\<forall>l\<in>set ls. l \<le> 32"
    and kraft: "sum_list (map (\<lambda>l. 2 ^ (32 - l)) ls) \<le> (2::nat) ^ 32"
    and pos: "0 < ls ! a"
    by (auto simp: canon_def Suc_le_eq)
  from nc_bound [OF srt le32 a kraft] have z: "nc ls a div 2 ^ (ls ! a - 0) = 0" by simp
  have b0: "below ls 0 = 0" by (simp add: below_def)
  have bits: "code_bits (d_sym d ! a) = map (bit (nc ls a)) (rev [0..<ls ! a - 0])"
    using canon_code_bits [OF c a] by (simp add: bl_def)
  from ReadSymbol_loop_canon [OF c n32 a pos, of rest]
  show ?thesis unfolding ReadSymbol_def bits z b0 by simp
qed

lemma WriteSymbol_bits:
  assumes "s = (if s0 = EOF then e_eof (w_e w) else s0)"
    and "\<not> e_eof (w_e w) < s" and "unat s < length (e_m (w_e w))"
  shows "WriteSymbol bit_writer w s0
           = (Inr (symbol_length (e_m (w_e w) ! unat s)),
              w\<lparr>w_BitWriter := w_BitWriter w @ code_bits (e_m (w_e w) ! unat s)\<rparr>)"
  using assms
  by (simp add: WriteSymbol_def Let_def bit_writer_def bits_WriteBits_def code_bits_def not_le)

lemma walked_nonzero:
  assumes len: "length counts < 2 ^ 32 - 1" and nz: "\<exists>v\<in>set counts. v \<noteq> 0"
  shows "\<exists>e\<in>set (walked counts). symbol_length e \<noteq> 0"
proof -
  from walked_eof [OF len nz] obtain dp where
    "1 \<le> dp" "walked counts ! length counts
       = \<lparr>symbol_s = of_nat (length counts), symbol_code = 0, symbol_length = int dp\<rparr>"
    by blast
  then have "symbol_length (walked counts ! length counts) \<noteq> 0" by simp
  moreover have "walked counts ! length counts \<in> set (walked counts)" by simp
  ultimately show ?thesis by blast
qed

lemma NewEncoder_success:
  assumes len: "length counts < 2 ^ 32 - 1" and nz: "\<exists>v\<in>set counts. v \<noteq> 0"
  shows "\<exists>c' numl.
           calculateCodes (walked counts)
             = Inr (c', map (\<lambda>i. c' ! i) (sorted_ptrs (walked counts)), numl)
           \<and> NewEncoder counts
               = Inr \<lparr>e_eof = of_nat (length counts), e_m = c',
                      e_sym = map (\<lambda>i. c' ! i) (sorted_ptrs (walked counts)), e_numl = numl\<rparr>
           \<and> length c' = length counts + 1
           \<and> (\<forall>i. symbol_s (c' ! i) = symbol_s (walked counts ! i)
                   \<and> symbol_length (c' ! i) = symbol_length (walked counts ! i))"
proof -
  have l: "\<forall>e\<in>set (walked counts). 0 \<le> symbol_length e \<and> symbol_length e < 2 ^ 46"
    using walked_lengths [OF len nz] by blast
  from calculateCodes_run [OF l walked_nonzero [OF len nz]] obtain c' numl where
    cc: "calculateCodes (walked counts)
           = Inr (c', map (\<lambda>i. c' ! i) (sorted_ptrs (walked counts)), numl)"
    and run: "assign_loop (sorted_ptrs (walked counts)) (walked counts)
                (replicate (nat (symbol_length (walked counts ! last (sorted_ptrs (walked counts)))) + 1) 0)
                0 (- 1) = Inr (c', numl)"
    by blast
  from assign_loop_length [OF run] have "length c' = length counts + 1" by simp
  moreover have "symbol_s (c' ! i) = symbol_s (walked counts ! i)
                 \<and> symbol_length (c' ! i) = symbol_length (walked counts ! i)" for i
    by (rule assign_loop_fields [OF run])
  moreover have "NewEncoder counts
               = Inr \<lparr>e_eof = of_nat (length counts), e_m = c',
                      e_sym = map (\<lambda>i. c' ! i) (sorted_ptrs (walked counts)), e_numl = numl\<rparr>"
    by (simp add: NewEncoder_walked [OF len nz] cc)
  ultimately show ?thesis using cc by blast
qed

lemma roundtrip_symbol:
  assumes len: "length counts < 2 ^ 32 - 1" and nz: "\<exists>v\<in>set counts. v \<noteq> 0"
    and enc: "NewEncoder counts = Inr e"
    and le32: "\<forall>x\<in>set (e_m e). symbol_length x \<le> 32"
    and v: "s0 = EOF \<or> (unat s0 < length counts \<and> counts ! unat s0 \<noteq> 0)"
    and w: "w_e w = e"
  shows "\<exists>n bs. WriteSymbol bit_writer w s0 = (Inr n, w\<lparr>w_BitWriter := w_BitWriter w @ bs\<rparr>)
           \<and> (\<forall>rest. ReadSymbol bits_ReadBit (Encoder_Decoder e) (bs @ rest) = (Inr s0, rest))"
proof -
  let ?wk = "walked counts"
  let ?ps = "sorted_ptrs ?wk"
  let ?eof = "of_nat (length counts) :: u32"
  from NewEncoder_success [OF len nz] enc obtain c' numl where
    cc: "calculateCodes ?wk = Inr (c', map (\<lambda>i. c' ! i) ?ps, numl)"
    and e: "e = \<lparr>e_eof = ?eof, e_m = c', e_sym = map (\<lambda>i. c' ! i) ?ps, e_numl = numl\<rparr>"
    and lc: "length c' = length counts + 1"
    and fields: "\<And>i. symbol_s (c' ! i) = symbol_s (?wk ! i)"
                "\<And>i. symbol_length (c' ! i) = symbol_length (?wk ! i)"
    by auto
  have wl: "\<forall>x\<in>set ?wk. 0 \<le> symbol_length x \<and> symbol_length x \<le> 32"
  proof
    fix x assume "x \<in> set ?wk"
    then obtain i where i: "i < length counts + 1" "x = ?wk ! i"
      by (metis in_set_conv_nth length_walked)
    then have "c' ! i \<in> set (e_m e)" using lc e by simp
    with le32 have "symbol_length (c' ! i) \<le> 32" by blast
    with walked_lengths [OF len nz \<open>x \<in> set ?wk\<close>] i fields(2) [of i]
    show "0 \<le> symbol_length x \<and> symbol_length x \<le> 32" by simp
  qed
  have k32: "kraft32 ?wk \<le> 2 ^ 32"
    using kraft32_walked [OF len nz] wl by simp
  from calculateCodes_canon [OF wl walked_nonzero [OF len nz] k32] cc
  have can: "canon (lens_of ?wk) (map (\<lambda>i. c' ! i) ?ps) numl" by auto
  have n32: "length (lens_of ?wk) < 2 ^ 32"
    using length_sorted_ptrs_le [of ?wk] len by (simp add: lens_of_def)
  have ueof: "unat ?eof = length counts" using len by (intro unat_of_nat32) simp
  define s where "s = (if s0 = EOF then ?eof else s0)"
  have s: "unat s < length counts + 1 \<and> symbol_s (?wk ! unat s) = s
           \<and> symbol_length (?wk ! unat s) \<noteq> 0 \<and> \<not> ?eof < s
           \<and> (if s = ?eof then EOF else s) = s0"
  proof (cases "s0 = EOF")
    case True
    from walked_eof [OF len nz] obtain dp where
      "1 \<le> dp" "?wk ! length counts = \<lparr>symbol_s = ?eof, symbol_code = 0, symbol_length = int dp\<rparr>"
      by blast
    with True ueof show ?thesis by (simp add: s_def)
  next
    case False
    with v have k: "unat s0 < length counts" "counts ! unat s0 \<noteq> 0" by simp_all
    from walked_symbol [OF len k] obtain dp where
      "1 \<le> dp" "?wk ! unat s0 = \<lparr>symbol_s = of_nat (unat s0), symbol_code = 0, symbol_length = int dp\<rparr>"
      by blast
    moreover from k(1) ueof have "s0 < ?eof" by (simp add: word_less_nat_alt)
    ultimately show ?thesis using False k(1) by (auto simp: s_def)
  qed
  let ?i = "unat s"
  have ws: "WriteSymbol bit_writer w s0
              = (Inr (symbol_length (c' ! ?i)),
                 w\<lparr>w_BitWriter := w_BitWriter w @ code_bits (c' ! ?i)\<rparr>)"
  proof -
    have we: "e_eof (w_e w) = ?eof" "e_m (w_e w) = c'" by (simp_all add: w e)
    have 1: "s = (if s0 = EOF then e_eof (w_e w) else s0)" by (simp only: we s_def)
    have 2: "\<not> e_eof (w_e w) < s" using s by (simp add: we)
    have 3: "unat s < length (e_m (w_e w))" using s lc by (simp add: we)
    show ?thesis using WriteSymbol_bits [OF 1 2 3] by (simp only: we)
  qed
  from s have "?i \<in> set ?ps" by (simp add: set_sorted_ptrs)
  then obtain a where a: "a < length ?ps" "?ps ! a = ?i" by (metis in_set_conv_nth)
  then have a': "a < length (lens_of ?wk)" by (simp add: lens_of_def)
  let ?d = "Encoder_Decoder e"
  have d: "d_sym ?d = map (\<lambda>i. c' ! i) ?ps" "d_numl ?d = numl" "d_eof ?d = ?eof"
    by (simp_all add: Encoder_Decoder_def e)
  have can': "canon (lens_of ?wk) (d_sym ?d) (d_numl ?d)" using can by (simp only: d)
  have da: "d_sym ?d ! a = c' ! ?i" using a by (simp add: d)
  have so: "sym_out ?d (symbol_s (c' ! ?i)) = s0"
    using s by (simp add: sym_out_def d(3) fields)
  have "ReadSymbol bits_ReadBit ?d (code_bits (c' ! ?i) @ rest) = (Inr s0, rest)" for rest
    using ReadSymbol_canon [OF can' n32 a', of rest] unfolding da so .
  with ws show ?thesis by blast
qed

lemma roundtrip_list:
  assumes len: "length counts < 2 ^ 32 - 1" and nz: "\<exists>v\<in>set counts. v \<noteq> 0"
    and enc: "NewEncoder counts = Inr e"
    and le32: "\<forall>x\<in>set (e_m e). symbol_length x \<le> 32"
  shows "\<forall>s0\<in>set ss. s0 = EOF \<or> (unat s0 < length counts \<and> counts ! unat s0 \<noteq> 0) \<Longrightarrow>
         w_e w = e \<Longrightarrow>
         \<exists>ns bs. write_symbols bit_writer w ss = (Inr ns, w\<lparr>w_BitWriter := w_BitWriter w @ bs\<rparr>)
           \<and> (\<forall>rest. read_symbols bits_ReadBit (Encoder_Decoder e) (length ss) (bs @ rest)
                        = (Inr ss, rest))"
proof (induction ss arbitrary: w)
  case Nil
  have "w\<lparr>w_BitWriter := w_BitWriter w @ []\<rparr> = w" by simp
  then show ?case by (metis append_Nil list.size(3) read_symbols.simps(1) write_symbols.simps(1))
next
  case (Cons s0 ss)
  from Cons.prems have v: "s0 = EOF \<or> (unat s0 < length counts \<and> counts ! unat s0 \<noteq> 0)"
    by simp
  from roundtrip_symbol [OF len nz enc le32 v Cons.prems(2)] obtain n bs1 where
    w1: "WriteSymbol bit_writer w s0 = (Inr n, w\<lparr>w_BitWriter := w_BitWriter w @ bs1\<rparr>)"
    and r1: "\<And>rest. ReadSymbol bits_ReadBit (Encoder_Decoder e) (bs1 @ rest) = (Inr s0, rest)"
    by blast
  let ?w1 = "w\<lparr>w_BitWriter := w_BitWriter w @ bs1\<rparr>"
  from Cons.prems have "\<forall>s\<in>set ss. s = EOF \<or> (unat s < length counts \<and> counts ! unat s \<noteq> 0)"
    "w_e ?w1 = e" by simp_all
  from Cons.IH [OF this] obtain ns bs2 where
    w2: "write_symbols bit_writer ?w1 ss = (Inr ns, ?w1\<lparr>w_BitWriter := w_BitWriter ?w1 @ bs2\<rparr>)"
    and r2: "\<And>rest. read_symbols bits_ReadBit (Encoder_Decoder e) (length ss) (bs2 @ rest)
                        = (Inr ss, rest)"
    by blast
  have "write_symbols bit_writer w (s0 # ss)
          = (Inr (n # ns), w\<lparr>w_BitWriter := w_BitWriter w @ (bs1 @ bs2)\<rparr>)"
    by (simp add: w1 w2)
  moreover have "read_symbols bits_ReadBit (Encoder_Decoder e) (length (s0 # ss))
                   ((bs1 @ bs2) @ rest) = (Inr (s0 # ss), rest)" for rest
    by (simp add: r1 r2)
  ultimately show ?case by blast
qed




subsection \<open>Serialization and the decoder rebuilt from it\<close>

lemma uvarint_bytes_small: "\<not> 0x80 \<le> x \<Longrightarrow> uvarint_bytes x = [ucast x]"
  by (subst uvarint_bytes.simps) simp

lemma uvarint_bytes_big:
  "0x80 \<le> x \<Longrightarrow> uvarint_bytes x = (ucast x OR 0x80) # uvarint_bytes (drop_bit 7 x)"
  by (subst uvarint_bytes.simps) simp

lemma bit_128_int: "bit (128 :: int) n \<longleftrightarrow> n = 7"
proof -
  have "bit (2 ^ 7 :: int) n \<longleftrightarrow> n = 7" by (auto simp only: bit_exp_iff) simp
  then show ?thesis by simp
qed

lemma bit_127_int: "bit (127 :: int) n \<longleftrightarrow> n < 7"
proof -
  have "bit (mask 7 :: int) n \<longleftrightarrow> n < 7" by (auto simp add: bit_mask_iff)
  then show ?thesis by (simp add: mask_eq_exp_minus_1)
qed

lemma byte_low7:
  fixes y :: u64
  shows "ucast ((ucast y OR 0x80 :: byte) AND 0x7f) = take_bit 7 y"
  by (rule bit_word_eqI) (auto simp: bit_simps bit_128_int bit_127_int)

lemma byte_high_bit:
  fixes y :: u64
  shows "\<not> (ucast y OR 0x80 :: byte) < 0x80"
proof -
  have "(0x80 :: byte) \<le> 0x80 OR ucast y" by (rule le_word_or2)
  then show ?thesis by (simp add: or.commute not_less)
qed

lemma split_low7:
  fixes y acc :: u64
  shows "(acc OR push_bit sh (take_bit 7 y)) OR push_bit (sh + 7) (drop_bit 7 y)
           = acc OR push_bit sh y"
proof (rule bit_word_eqI)
  fix n assume n: "n < LENGTH(64)"
  show "bit ((acc OR push_bit sh (take_bit 7 y)) OR push_bit (sh + 7) (drop_bit 7 y)) n
          = bit (acc OR push_bit sh y) n"
  proof (cases "sh + 7 \<le> n")
    case True
    then have "7 + (n - (sh + 7)) = n - sh" by simp
    with True n show ?thesis by (auto simp: bit_simps)
  next
    case False
    with n show ?thesis by (auto simp: bit_simps)
  qed
qed

lemma small_byte:
  fixes y :: u64
  assumes "\<not> 0x80 \<le> y"
  shows "ucast (ucast y :: byte) = y" and "(ucast y :: byte) < 0x80"
proof -
  from assms have "y < 2 ^ 7" by (simp add: not_le)
  then have "y AND mask 7 = y" by (rule less_mask_eq)
  then have "take_bit 7 y = y" by (simp add: take_bit_eq_mask)
  then have b: "bit y n \<Longrightarrow> n < 7" for n by (metis bit_take_bit_iff)
  show u: "ucast (ucast y :: byte) = y"
    by (rule bit_word_eqI) (auto simp: bit_simps dest: b)
  from assms have "unat y < 128" by (simp add: word_le_nat_alt not_le)
  then have "unat (ucast y :: byte) = unat y"
    by (simp add: unsigned_ucast_eq take_bit_nat_eq_self)
  then show "(ucast y :: byte) < 0x80"
    using \<open>unat y < 128\<close> by (simp add: word_less_nat_alt)
qed

lemma ReadUvarint_loop_uvarint:
  "i \<le> 9 \<Longrightarrow> unat y < 2 ^ (64 - 7 * i) \<Longrightarrow>
   ReadUvarint_loop i acc (7 * i) (uvarint_bytes y @ rest)
     = (Inr (acc OR push_bit (7 * i) y), rest)"
proof (induction y arbitrary: i acc rule: uvarint_bytes.induct)
  case (1 y)
  show ?case
  proof (cases "0x80 \<le> y")
    case False
    note sb = small_byte [OF False]
    have "\<not> (i = 9 \<and> 1 < (ucast y :: byte))"
    proof
      assume a: "i = 9 \<and> 1 < (ucast y :: byte)"
      with "1.prems"(2) have "unat y < 2" by simp
      then have "unat (ucast y :: byte) < 2"
        by (simp add: unsigned_ucast_eq take_bit_nat_eq_self)
      with a show False by (simp add: word_less_nat_alt)
    qed
    with "1.prems"(1) sb show ?thesis
      by (simp add: uvarint_bytes_small [OF False])
  next
    case True
    from True have "128 \<le> unat y" by (simp add: word_le_nat_alt)
    with "1.prems"(2) have "(2::nat) ^ 7 < 2 ^ (64 - 7 * i)" by simp
    then have "7 < 64 - 7 * i" by (simp only: power_strict_increasing_iff)
    then have i8: "i \<le> 8" by simp
    then have e: "64 - 7 * i = 7 + (64 - 7 * (i + 1))" by simp
    have "unat (drop_bit 7 y) = unat y div 2 ^ 7" by (simp add: drop_bit_eq_div unat_div)
    also have "\<dots> < 2 ^ (64 - 7 * (i + 1))"
      using "1.prems"(2) unfolding e power_add by (simp add: less_mult_imp_div_less mult.commute)
    finally have d: "unat (drop_bit 7 y) < 2 ^ (64 - 7 * (i + 1))" .
    from i8 have i9: "i + 1 \<le> 9" by simp
    have s: "7 * i + 7 = 7 * (i + 1)" by simp
    have "ReadUvarint_loop i acc (7 * i) (uvarint_bytes y @ rest)
            = ReadUvarint_loop (i + 1) (acc OR push_bit (7 * i) (take_bit 7 y)) (7 * i + 7)
                (uvarint_bytes (drop_bit 7 y) @ rest)"
      using i8 byte_high_bit [of y]
      by (simp add: uvarint_bytes_big [OF True] byte_low7)
    also have "\<dots> = (Inr ((acc OR push_bit (7 * i) (take_bit 7 y))
                          OR push_bit (7 * (i + 1)) (drop_bit 7 y)), rest)"
      unfolding s by (rule "1.IH" [OF True i9 d])
    also have "(acc OR push_bit (7 * i) (take_bit 7 y)) OR push_bit (7 * (i + 1)) (drop_bit 7 y)
                 = acc OR push_bit (7 * i) y"
      using split_low7 [of acc "7 * i" y] by (simp only: s)
    finally show ?thesis .
  qed
qed

lemma ReadUvarint_uvarint:
  "ReadUvarint (uvarint_bytes y @ rest) = (Inr y, rest)"
proof -
  have "unat y < 2 ^ (64 - 7 * 0)" using unsigned_less [of y] by simp
  from ReadUvarint_loop_uvarint [OF _ this, of 0 rest] show ?thesis
    by (simp add: ReadUvarint_def)
qed

lemma length_uvarint_bytes:
  "0 < k \<Longrightarrow> unat y < 2 ^ (7 * k) \<Longrightarrow> length (uvarint_bytes y) \<le> k"
proof (induction y arbitrary: k rule: uvarint_bytes.induct)
  case (1 y)
  show ?case
  proof (cases "0x80 \<le> y")
    case False
    with "1.prems"(1) show ?thesis by (simp add: uvarint_bytes_small)
  next
    case True
    from True have "128 \<le> unat y" by (simp add: word_le_nat_alt)
    with "1.prems"(2) have "(2::nat) ^ 7 < 2 ^ (7 * k)" by simp
    then have "7 < 7 * k" by (simp only: power_strict_increasing_iff)
    then have k: "0 < k - 1" "7 * k = 7 + 7 * (k - 1)" by simp_all
    have "unat (drop_bit 7 y) = unat y div 2 ^ 7" by (simp add: drop_bit_eq_div unat_div)
    also have "\<dots> < 2 ^ (7 * (k - 1))"
      using "1.prems"(2) unfolding k(2) power_add
      by (simp add: less_mult_imp_div_less mult.commute)
    finally have "length (uvarint_bytes (drop_bit 7 y)) \<le> k - 1"
      by (rule "1.IH" [OF True k(1)])
    with k(1) show ?thesis by (simp add: uvarint_bytes_big [OF True])
  qed
qed

lemma PutUvarint_small:
  "unat y < 2 ^ 35 \<Longrightarrow> PutUvarint MaxVarintLen32 y = Inr (uvarint_bytes y)"
  using length_uvarint_bytes [of 5 y] by (simp add: PutUvarint_def MaxVarintLen32_def)

lemma small_length_word:
  assumes "0 \<le> l" "l < 2 ^ 35"
  shows "unat (word_of_int l :: u64) < 2 ^ 35" and "sint (word_of_int l :: u64) = l"
proof -
  from assms have "take_bit 64 l = l" by (simp add: take_bit_int_eq_self)
  then have "unat (word_of_int l :: u64) = nat l" by (simp add: unsigned_of_int)
  with assms show "unat (word_of_int l :: u64) < 2 ^ 35" by simp
  from assms have "signed_take_bit 63 l = l"
    by (intro signed_take_bit_int_eq_self) simp_all
  then show "sint (word_of_int l :: u64) = l" by (simp add: sint_sbintrunc')
qed

lemma marshal_lengths_ok:
  "\<forall>e\<in>set es. 0 \<le> symbol_length e \<and> symbol_length e < 2 ^ 35 \<Longrightarrow>
   marshal_lengths es b = Inr (b @ length_bytes es)"
proof (induction es arbitrary: b)
  case Nil
  show ?case by (simp add: length_bytes_def)
next
  case (Cons e es)
  from Cons.prems have "unat (word_of_int (symbol_length e) :: u64) < 2 ^ 35"
    by (intro small_length_word) simp_all
  then have "PutUvarint MaxVarintLen32 (word_of_int (symbol_length e))
               = Inr (uvarint_bytes (word_of_int (symbol_length e)))"
    by (rule PutUvarint_small)
  moreover from Cons have "marshal_lengths es (b @ uvarint_bytes (word_of_int (symbol_length e)))
      = Inr ((b @ uvarint_bytes (word_of_int (symbol_length e))) @ length_bytes es)" by simp
  ultimately show ?case by (simp add: length_bytes_def)
qed

lemma MarshalBinary_ok:
  assumes "length c < 2 ^ 35"
    and "\<forall>e\<in>set c. 0 \<le> symbol_length e \<and> symbol_length e < 2 ^ 35"
  shows "MarshalBinary c = Inr (uvarint_bytes (of_nat (length c)) @ length_bytes c)"
proof -
  have "unat (of_nat (length c) :: u64) < 2 ^ 35"
    using assms(1) by (simp add: unat_of_nat)
  then have "PutUvarint MaxVarintLen32 (of_nat (length c)) = Inr (uvarint_bytes (of_nat (length c)))"
    by (rule PutUvarint_small)
  with marshal_lengths_ok [OF assms(2)] show ?thesis by (simp add: MarshalBinary_def)
qed

lemma unmarshal_loop_lengths:
  "length c = i + length es \<Longrightarrow>
   \<forall>e\<in>set es. 0 \<le> symbol_length e \<and> symbol_length e < 2 ^ 35 \<Longrightarrow>
   unmarshal_loop (length es) i c (length_bytes es)
     = Inr (take i c @ map (\<lambda>j. entry_of (i + j) (symbol_length (es ! j))) [0..<length es])"
proof (induction es arbitrary: i c)
  case Nil
  then show ?case by simp
next
  case (Cons e es)
  let ?c1 = "c[i := entry_of i (symbol_length e)]"
  from Cons.prems have s: "sint (word_of_int (symbol_length e) :: u64) = symbol_length e"
    by (intro small_length_word) simp_all
  have r: "ReadUvarint (length_bytes (e # es))
             = (Inr (word_of_int (symbol_length e)), length_bytes es)"
    using ReadUvarint_uvarint [of "word_of_int (symbol_length e)" "length_bytes es"]
    by (simp add: length_bytes_def)
  from Cons.prems have l1: "length ?c1 = (i + 1) + length es" by simp
  from Cons.prems have es: "\<forall>e\<in>set es. 0 \<le> symbol_length e \<and> symbol_length e < 2 ^ 35"
    by simp
  have "unmarshal_loop (length (e # es)) i c (length_bytes (e # es))
          = unmarshal_loop (length es) (i + 1) ?c1 (length_bytes es)"
    by (simp add: r s entry_of_def)
  also have "\<dots> = Inr (take (i + 1) ?c1
                   @ map (\<lambda>j. entry_of (i + 1 + j) (symbol_length (es ! j))) [0..<length es])"
    by (rule Cons.IH [OF l1 es])
  also have "take (i + 1) ?c1 = take i c @ [entry_of i (symbol_length e)]"
    using Cons.prems(1) by (simp add: take_Suc_conv_app_nth)
  also have "(take i c @ [entry_of i (symbol_length e)])
               @ map (\<lambda>j. entry_of (i + 1 + j) (symbol_length (es ! j))) [0..<length es]
             = take i c @ map (\<lambda>j. entry_of (i + j) (symbol_length ((e # es) ! j)))
                             [0..<length (e # es)]"
  proof -
    have "[0..<length (e # es)] = 0 # map Suc [0..<length es]"
      by (simp add: upt_conv_Cons map_Suc_upt del: upt_Suc)
    then show ?thesis by (simp add: comp_def)
  qed
  finally show ?case .
qed

lemma UnmarshalBinary_MarshalBinary:
  assumes len: "length c < 2 ^ 32"
    and lens: "\<forall>e\<in>set c. 0 \<le> symbol_length e \<and> symbol_length e < 2 ^ 35"
  shows "\<exists>b. MarshalBinary c = Inr b \<and> UnmarshalBinary b = Inr (reindexed c)"
proof -
  let ?l = "of_nat (length c) :: u64"
  let ?b = "uvarint_bytes ?l @ length_bytes c"
  from len have "length c < 2 ^ 35" by simp
  from MarshalBinary_ok [OF this lens] have m: "MarshalBinary c = Inr ?b" .
  have ul: "unat ?l = length c" using len by (simp add: unat_of_nat)
  have "?l \<le> 2 ^ 44" using len by (simp add: word_le_nat_alt ul)
  then have sl: "\<not> make_panics 16 (sint ?l)" by (rule make_codebook_ok)
  have "unat (ucast ?l :: u32) = take_bit 32 (length c)" by (simp add: unsigned_ucast_eq ul)
  also have "\<dots> = length c" using len by (simp add: take_bit_nat_eq_self)
  finally have u32: "unat (ucast ?l :: u32) = length c" .
  have "unmarshal_loop (length c) 0 (replicate (length c) zero_symbol) (length_bytes c)
          = Inr (take 0 (replicate (length c) zero_symbol)
                 @ map (\<lambda>j. entry_of (0 + j) (symbol_length (c ! j))) [0..<length c])"
    by (rule unmarshal_loop_lengths [OF _ lens]) simp
  then have "UnmarshalBinary ?b = Inr (reindexed c)"
    by (simp add: UnmarshalBinary_def ReadUvarint_uvarint sl u32 ul reindexed_def)
  with m show ?thesis by blast
qed

lemma sort_key_cong_set:
  "(\<And>x. x \<in> set xs \<Longrightarrow> f x = g x) \<Longrightarrow> sort_key f xs = sort_key g xs"
proof (induction xs)
  case Nil
  show ?case by simp
next
  case (Cons x xs)
  have ins: "set ys \<subseteq> set xs \<Longrightarrow> insort_key f x ys = insort_key g x ys" for ys
  proof (induction ys)
    case Nil
    show ?case by simp
  next
    case (Cons y ys)
    then have "f y = g y" "f x = g x" using Cons.prems \<open>\<And>x'. x' \<in> set (x # xs) \<Longrightarrow> f x' = g x'\<close>
      by auto
    with Cons show ?case by simp
  qed
  from Cons have "sort_key f xs = sort_key g xs" by simp
  moreover have "set (sort_key g xs) \<subseteq> set xs" by simp
  ultimately show ?case using ins [of "sort_key g xs"] by simp
qed

lemma length_reindexed [simp]: "length (reindexed c) = length c"
  by (simp add: reindexed_def)

lemma nth_reindexed:
  "i < length c \<Longrightarrow> reindexed c ! i = entry_of i (symbol_length (c ! i))"
  by (simp add: reindexed_def)

lemma sorted_ptrs_reindexed:
  assumes "\<And>i. i < length c \<Longrightarrow> symbol_length (c ! i) \<noteq> 0 \<Longrightarrow> symbol_s (c ! i) = of_nat i"
  shows "sorted_ptrs (reindexed c) = sorted_ptrs c"
proof -
  let ?idx = "filter (\<lambda>i. symbol_length (c ! i) \<noteq> 0) [0..<length c]"
  have f: "filter (\<lambda>i. symbol_length (reindexed c ! i) \<noteq> 0) [0..<length (reindexed c)] = ?idx"
    by (rule filter_cong) (simp_all add: nth_reindexed entry_of_def)
  have "sort_key (\<lambda>i. symkey (reindexed c ! i)) ?idx = sort_key (\<lambda>i. symkey (c ! i)) ?idx"
  proof (rule sort_key_cong_set)
    fix x assume "x \<in> set ?idx"
    then have x: "x < length c" "symbol_length (c ! x) \<noteq> 0" by simp_all
    with assms [OF x] show "symkey (reindexed c ! x) = symkey (c ! x)"
      by (simp add: symkey_def nth_reindexed entry_of_def)
  qed
  then show ?thesis unfolding sorted_ptrs_def f .
qed

lemma walked_index:
  assumes len: "length counts < 2 ^ 32 - 1" and nz: "\<exists>v\<in>set counts. v \<noteq> 0"
    and i: "i < length counts + 1" "symbol_length (walked counts ! i) \<noteq> 0"
  shows "symbol_s (walked counts ! i) = of_nat i"
proof (cases "i \<in> (\<lambda>x. unat (fst x)) ` set (ld (huff_tree counts) 0)")
  case True
  then obtain x where x: "x \<in> set (ld (huff_tree counts) 0)" "i = unat (fst x)" by blast
  from walked_leaf [OF len nz x(1)] x(2) show ?thesis by simp
next
  case False
  from fold_set_slot_other [OF False] i(1)
  have "walked counts ! i = zero_symbol" by (simp add: walked_def del: replicate_Suc)
  with i(2) show ?thesis by (simp add: zero_symbol_def)
qed

lemma sorted_ptrs_cong:
  assumes "length c1 = length c2"
    and "\<And>i. i < length c1 \<Longrightarrow> symbol_length (c1 ! i) = symbol_length (c2 ! i)"
    and "\<And>i. i < length c1 \<Longrightarrow> symbol_length (c1 ! i) \<noteq> 0 \<Longrightarrow> symbol_s (c1 ! i) = symbol_s (c2 ! i)"
  shows "sorted_ptrs c1 = sorted_ptrs c2"
proof -
  let ?idx = "filter (\<lambda>i. symbol_length (c1 ! i) \<noteq> 0) [0..<length c1]"
  have f: "filter (\<lambda>i. symbol_length (c2 ! i) \<noteq> 0) [0..<length c2] = ?idx"
    unfolding assms(1) [symmetric] by (rule filter_cong) (simp_all add: assms(2))
  have "sort_key (\<lambda>i. symkey (c1 ! i)) ?idx = sort_key (\<lambda>i. symkey (c2 ! i)) ?idx"
  proof (rule sort_key_cong_set)
    fix x assume "x \<in> set ?idx"
    then have x: "x < length c1" "symbol_length (c1 ! x) \<noteq> 0" by simp_all
    from assms(2) [OF x(1)] assms(3) [OF x] show "symkey (c1 ! x) = symkey (c2 ! x)"
      by (simp add: symkey_def)
  qed
  then show ?thesis unfolding sorted_ptrs_def f .
qed

lemma calculateCodes_cong:
  assumes l: "length c1 = length c2"
    and sl: "\<And>i. i < length c1 \<Longrightarrow> symbol_length (c1 ! i) = symbol_length (c2 ! i)"
    and ss: "\<And>i. i < length c1 \<Longrightarrow> symbol_length (c1 ! i) \<noteq> 0 \<Longrightarrow> symbol_s (c1 ! i) = symbol_s (c2 ! i)"
    and lens: "\<forall>e\<in>set c1. 0 \<le> symbol_length e \<and> symbol_length e < 2 ^ 46"
    and nz: "\<exists>e\<in>set c1. symbol_length e \<noteq> 0"
  shows "\<exists>c1' c2' syms numl. calculateCodes c1 = Inr (c1', syms, numl)
           \<and> calculateCodes c2 = Inr (c2', syms, numl)"
proof -
  let ?ps = "sorted_ptrs c1"
  have ps: "sorted_ptrs c2 = ?ps" by (rule sorted_ptrs_cong [OF l sl ss, symmetric])
  have lens2: "\<forall>e\<in>set c2. 0 \<le> symbol_length e \<and> symbol_length e < 2 ^ 46"
  proof
    fix e assume "e \<in> set c2"
    then obtain i where i: "i < length c1" "e = c2 ! i" by (metis in_set_conv_nth l)
    then have "c1 ! i \<in> set c1" by simp
    with lens sl [OF i(1)] i(2) show "0 \<le> symbol_length e \<and> symbol_length e < 2 ^ 46" by force
  qed
  have nz2: "\<exists>e\<in>set c2. symbol_length e \<noteq> 0"
  proof -
    from nz obtain i where i: "i < length c1" "symbol_length (c1 ! i) \<noteq> 0"
      by (metis in_set_conv_nth)
    then have "c2 ! i \<in> set c2" "symbol_length (c2 ! i) \<noteq> 0" using l sl [OF i(1)] by simp_all
    then show ?thesis by blast
  qed
  from nz have ne: "?ps \<noteq> []" by (simp add: sorted_ptrs_Nil_iff)
  then have "last ?ps \<in> set ?ps" by simp
  then have lp: "last ?ps < length c1" by (simp add: set_sorted_ptrs)
  let ?n0 = "replicate (nat (symbol_length (c1 ! last ?ps)) + 1) (0::u32)"
  from calculateCodes_run [OF lens nz] obtain c1' numl1 where
    cc1: "calculateCodes c1 = Inr (c1', map (\<lambda>i. c1' ! i) ?ps, numl1)"
    and r1: "assign_loop ?ps c1 ?n0 0 (- 1) = Inr (c1', numl1)" by blast
  from calculateCodes_run [OF lens2 nz2] obtain c2' numl2 where
    cc2: "calculateCodes c2 = Inr (c2', map (\<lambda>i. c2' ! i) ?ps, numl2)"
    and r2: "assign_loop ?ps c2 ?n0 0 (- 1) = Inr (c2', numl2)"
    unfolding ps sl [OF lp, symmetric] by blast
  have pb: "\<forall>p\<in>set ?ps. p < length c1" by (simp add: set_sorted_ptrs)
  then have pb2: "\<forall>p\<in>set ?ps. p < length c2" by (simp add: l)
  have lm: "map (\<lambda>p. symbol_length (c1 ! p)) ?ps = map (\<lambda>p. symbol_length (c2 ! p)) ?ps"
    using pb sl by simp
  have lm': "map (\<lambda>p. nat (symbol_length (c1 ! p))) ?ps = map (\<lambda>p. nat (symbol_length (c2 ! p))) ?ps"
    using pb sl by simp
  have "numl1 = numl2"
  proof (rule nth_equalityI)
    show "length numl1 = length numl2"
      using assign_loop_length [OF r1] assign_loop_length [OF r2] by simp
  next
    fix k assume "k < length numl1"
    then have k: "k < length ?n0" using assign_loop_length [OF r1] by simp
    from assign_loop_numl [OF r1 k] assign_loop_numl [OF r2 k] show "numl1 ! k = numl2 ! k"
      by (simp only: lm')
  qed
  moreover have "map (\<lambda>i. c1' ! i) ?ps = map (\<lambda>i. c2' ! i) ?ps"
  proof (rule nth_equalityI)
    show "length (map (\<lambda>i. c1' ! i) ?ps) = length (map (\<lambda>i. c2' ! i) ?ps)" by simp
  next
    fix j assume "j < length (map (\<lambda>i. c1' ! i) ?ps)"
    then have j: "j < length ?ps" by simp
    let ?p = "?ps ! j"
    from j have p: "?p \<in> set ?ps" by simp
    then have pl: "?p < length c1" "symbol_length (c1 ! ?p) \<noteq> 0" by (simp_all add: set_sorted_ptrs)
    have "symbol_code (c1' ! ?p) = symbol_code (c2' ! ?p)"
      using assign_loop_code [OF r1 distinct_sorted_ptrs pb j]
            assign_loop_code [OF r2 distinct_sorted_ptrs pb2 j] by (simp only: lm)
    moreover have "symbol_s (c1' ! ?p) = symbol_s (c2' ! ?p)"
      using assign_loop_fields [OF r1, of ?p] assign_loop_fields [OF r2, of ?p] ss [OF pl] by simp
    moreover have "symbol_length (c1' ! ?p) = symbol_length (c2' ! ?p)"
      using assign_loop_fields [OF r1, of ?p] assign_loop_fields [OF r2, of ?p] sl [OF pl(1)] by simp
    ultimately have "c1' ! ?p = c2' ! ?p" by (intro symbol.equality) simp_all
    with j show "map (\<lambda>i. c1' ! i) ?ps ! j = map (\<lambda>i. c2' ! i) ?ps ! j" by simp
  qed
  ultimately show ?thesis using cc1 cc2 by simp
qed

lemma walked_length_le:
  assumes len: "length counts < 2 ^ 32 - 1" and nz: "\<exists>v\<in>set counts. v \<noteq> 0"
    and e: "e \<in> set (walked counts)"
  shows "0 \<le> symbol_length e \<and> symbol_length e \<le> int (length counts)"
proof -
  from walked_entry [OF len nz e] show ?thesis
  proof
    assume "e = zero_symbol"
    then show ?thesis by (simp add: zero_symbol_def)
  next
    assume "\<exists>x\<in>set (ld (huff_tree counts) 0).
               e = \<lparr>symbol_s = fst x, symbol_code = 0, symbol_length = int (snd x)\<rparr>"
    then obtain x where x: "x \<in> set (ld (huff_tree counts) 0)"
      "e = \<lparr>symbol_s = fst x, symbol_code = 0, symbol_length = int (snd x)\<rparr>" by blast
    from ld_huff_bounds(3) [OF len nz x(1)] x(2) show ?thesis by simp
  qed
qed



subsection \<open>The merge loop takes the two least weights\<close>

lemma nodes_Less_wt: "nodes_Less h i j \<longleftrightarrow> wt (h ! i) < wt (h ! j)"
  by (simp add: nodes_Less_def wt_def word_sless_alt)

lemma parent_less: "0 < k \<Longrightarrow> parent k < k"
  by (simp add: parent_def)

lemma parent_eq_iff: "0 < k \<Longrightarrow> parent k = i \<longleftrightarrow> k = 2 * i + 1 \<or> k = 2 * i + 2"
  by (simp add: parent_def) arith

lemma nth_nodes_Swap:
  "i < length h \<Longrightarrow> j < length h \<Longrightarrow>
   nodes_Swap h i j ! k = (if k = j then h ! i else if k = i then h ! j else h ! k)"
  by (simp add: nodes_Swap_def nth_list_update)

lemma up_stop: "parent j = j \<or> \<not> nodes_Less h j (parent j) \<Longrightarrow> up h j = h"
  by (subst up.simps) (auto simp: parent_def Let_def)

lemma up_step:
  "parent j \<noteq> j \<Longrightarrow> nodes_Less h j (parent j) \<Longrightarrow>
   up h j = up (nodes_Swap h (parent j) j) (parent j)"
  by (subst up.simps) (auto simp: parent_def Let_def)

lemma up_heap: "j < length h \<Longrightarrow> up_inv h j \<Longrightarrow> heap_upto (up h j) (length h)"
proof (induction h j rule: up.induct)
  case (1 h j)
  let ?p = "parent j"
  show ?case
  proof (cases "?p = j \<or> \<not> nodes_Less h j ?p")
    case True
    have "wt (h ! parent k) \<le> wt (h ! k)" if k: "0 < k" "k < length h" for k
    proof (cases "k = j")
      case False
      with "1.prems"(2) k show ?thesis by (simp add: up_inv_def)
    next
      case kj: True
      with k parent_less [of j] True have "\<not> nodes_Less h j ?p" by auto
      with kj show ?thesis by (simp add: nodes_Less_wt)
    qed
    then show ?thesis by (simp add: up_stop [OF True] heap_upto_def)
  next
    case False
    then have pj: "?p \<noteq> j" and less: "wt (h ! j) < wt (h ! ?p)"
      by (simp_all add: nodes_Less_wt)
    from pj have j0: "0 < j" by (cases j) (simp_all add: parent_def)
    then have plt: "?p < j" by (rule parent_less)
    with "1.prems"(1) have pl: "?p < length h" by simp
    let ?h = "nodes_Swap h ?p j"
    note sw = nth_nodes_Swap [OF pl "1.prems"(1)]
    from "1.prems"(2) have inv1: "\<And>k. 0 < k \<Longrightarrow> k < length h \<Longrightarrow> k \<noteq> j \<Longrightarrow> wt (h ! parent k) \<le> wt (h ! k)"
      and inv2: "\<And>k. 0 < k \<Longrightarrow> k < length h \<Longrightarrow> parent k = j \<Longrightarrow> wt (h ! ?p) \<le> wt (h ! k)"
      using j0 by (auto simp: up_inv_def)
    have "up_inv ?h ?p"
      unfolding up_inv_def
    proof (intro conjI allI impI)
      fix k assume k: "0 < k \<and> k < length ?h \<and> k \<noteq> ?p"
      then have kl: "k < length h" and k0: "0 < k" and kp: "k \<noteq> ?p" by simp_all
      from k0 have pk: "parent k < k" by (rule parent_less)
      show "wt (?h ! parent k) \<le> wt (?h ! k)"
      proof (cases "k = j")
        case True
        with less plt show ?thesis by (simp add: sw)
      next
        case kj: False
        show ?thesis
        proof (cases "parent k = j")
          case True
          with inv2 [OF k0 kl True] kj kp plt show ?thesis by (simp add: sw)
        next
          case pkj: False
          show ?thesis
          proof (cases "parent k = ?p")
            case True
            with inv1 [OF k0 kl kj] less kj kp plt show ?thesis by (simp add: sw)
          next
            case False
            with inv1 [OF k0 kl kj] kj kp pkj show ?thesis by (simp add: sw)
          qed
        qed
      qed
    next
      fix k assume k: "0 < k \<and> k < length ?h \<and> parent k = ?p \<and> 0 < ?p"
      then have kl: "k < length h" and k0: "0 < k" and pk: "parent k = ?p" and p0: "0 < ?p"
        by simp_all
      from p0 have ppl: "parent ?p < ?p" by (rule parent_less)
      from inv1 [OF p0 pl] plt have pp: "wt (h ! parent ?p) \<le> wt (h ! ?p)" by simp
      from ppl plt have ne: "parent ?p \<noteq> j" "parent ?p \<noteq> ?p" by simp_all
      show "wt (?h ! parent ?p) \<le> wt (?h ! k)"
      proof (cases "k = j")
        case True
        with pp ne plt show ?thesis by (simp add: sw)
      next
        case False
        from pk ppl have "k \<noteq> ?p" using parent_less [OF k0] by auto
        with inv1 [OF k0 kl False] pk pp False ne show ?thesis by (simp add: sw)
      qed
    qed
    from "1.IH" [OF parent_def False _ this] pl have "heap_upto (up ?h ?p) (length h)"
      by simp
    with up_step [OF pj] False show ?thesis by simp
  qed
qed

lemma down_child_cases:
  assumes "\<not> n \<le> 2 * i + 1"
  shows "(down_child h i n = 2 * i + 1 \<or> down_child h i n = 2 * i + 2)"
    and "parent (down_child h i n) = i"
    and "\<And>k. 0 < k \<Longrightarrow> k < n \<Longrightarrow> parent k = i \<Longrightarrow> wt (h ! down_child h i n) \<le> wt (h ! k)"
proof -
  show c: "down_child h i n = 2 * i + 1 \<or> down_child h i n = 2 * i + 2"
    by (simp add: down_child_def)
  have "0 < down_child h i n" using c by auto
  then show "parent (down_child h i n) = i" using c by (simp add: parent_eq_iff)
  fix k assume k: "0 < k" "k < n" "parent k = i"
  then have "k = 2 * i + 1 \<or> k = 2 * i + 2" by (simp add: parent_eq_iff)
  then show "wt (h ! down_child h i n) \<le> wt (h ! k)"
    using k(2) by (auto simp: down_child_def nodes_Less_wt)
qed

lemma down_heap: "n \<le> length h \<Longrightarrow> down_inv h i n \<Longrightarrow> heap_upto (down h i n) n"
proof (induction h i n rule: down.induct)
  case (1 h i n)
  define j where "j = down_child h i n"
  from "1.prems"(2) have inv1: "\<And>k. 0 < k \<Longrightarrow> k < n \<Longrightarrow> parent k \<noteq> i \<Longrightarrow> wt (h ! parent k) \<le> wt (h ! k)"
    and inv2: "\<And>k. 0 < k \<Longrightarrow> k < n \<Longrightarrow> parent k = i \<Longrightarrow> 0 < i \<Longrightarrow> wt (h ! parent i) \<le> wt (h ! k)"
    by (auto simp: down_inv_def)
  show ?case
  proof (cases "n \<le> 2 * i + 1")
    case True
    have "wt (h ! parent k) \<le> wt (h ! k)" if k: "0 < k" "k < n" for k
    proof -
      have "parent k \<noteq> i"
      proof
        assume "parent k = i"
        with k(1) have "k = 2 * i + 1 \<or> k = 2 * i + 2" by (simp add: parent_eq_iff)
        with True k(2) show False by auto
      qed
      from inv1 [OF k this] show ?thesis .
    qed
    with True show ?thesis by (simp add: down_stop heap_upto_def)
  next
    case j1: False
    note dc = down_child_cases [OF j1, where h = h, folded j_def]
    from dc(1) j1 have jn: "j < n" "i < j" "0 < j"
      by (auto simp: j_def down_child_def)
    with "1.prems"(1) have jl: "j < length h" "i < length h" by simp_all
    show ?thesis
    proof (cases "nodes_Less h j i")
      case False
      then have le: "wt (h ! i) \<le> wt (h ! j)" by (simp add: nodes_Less_wt)
      have "wt (h ! parent k) \<le> wt (h ! k)" if k: "0 < k" "k < n" for k
      proof (cases "parent k = i")
        case True
        from dc(3) [OF k True] le True show ?thesis by simp
      next
        case False
        from inv1 [OF k False] show ?thesis .
      qed
      with False show ?thesis by (simp add: down_stop j_def heap_upto_def)
    next
      case True
      then have less: "wt (h ! j) < wt (h ! i)" by (simp add: nodes_Less_wt)
      let ?h = "nodes_Swap h i j"
      note sw = nth_nodes_Swap [OF jl(2) jl(1)]
      have "down_inv ?h j n"
        unfolding down_inv_def
      proof (intro conjI allI impI)
        fix k assume a: "0 < k \<and> k < n \<and> parent k \<noteq> j"
        then have k: "0 < k" "k < n" and pkj: "parent k \<noteq> j" by simp_all
        from k(1) have pk: "parent k < k" by (rule parent_less)
        show "wt (?h ! parent k) \<le> wt (?h ! k)"
        proof (cases "parent k = i")
          case True
          with pk have ki: "k \<noteq> i" by simp
          show ?thesis
          proof (cases "k = j")
            case True
            with less \<open>parent k = i\<close> jn show ?thesis by (simp add: sw)
          next
            case False
            with dc(3) [OF k True] True ki jn show ?thesis by (simp add: sw)
          qed
        next
          case pki: False
          show ?thesis
          proof (cases "k = i")
            case True
            with k(1) have i0: "0 < i" by simp
            from inv2 [OF jn(3) jn(1) dc(2) i0] True pki pkj jn show ?thesis
              by (simp add: sw)
          next
            case False
            have "k \<noteq> j" using dc(2) pki by auto
            with inv1 [OF k pki] False pki pkj show ?thesis by (simp add: sw)
          qed
        qed
      next
        fix k assume a: "0 < k \<and> k < n \<and> parent k = j \<and> 0 < j"
        then have k: "0 < k" "k < n" and pkj: "parent k = j" by simp_all
        from k(1) pkj have "j < k" using parent_less [of k] by simp
        with jn have kne: "k \<noteq> i" "k \<noteq> j" by simp_all
        have "parent k \<noteq> i" using pkj jn by simp
        from inv1 [OF k this] pkj have "wt (h ! j) \<le> wt (h ! k)" by simp
        with kne dc(2) jn show "wt (?h ! parent j) \<le> wt (?h ! k)" by (simp add: sw)
      qed
      from "1.IH" [OF refl j1 _ _ _ this] True "1.prems"(1)
      have "heap_upto (down ?h j n) n" by (simp add: j_def down_child_def)
      with down_step [OF j1, of h] True show ?thesis by (simp add: j_def)
    qed
  qed
qed

lemma down_beyond: "n \<le> k \<Longrightarrow> n \<le> length h \<Longrightarrow> down h i n ! k = h ! k"
proof (induction h i n rule: down.induct)
  case (1 h i n)
  define j where "j = down_child h i n"
  show ?case
  proof (cases "n \<le> 2 * i + 1 \<or> \<not> nodes_Less h j i")
    case True
    then show ?thesis unfolding j_def by (simp add: down_stop)
  next
    case False
    then have j1: "\<not> n \<le> 2 * i + 1" and l: "nodes_Less h j i" by auto
    from down_child_bounds [OF j1, of h] "1.prems" have b: "i < length h" "j < length h" "i < n" "j < n"
      by (auto simp: j_def)
    have "down (nodes_Swap h i j) j n ! k = nodes_Swap h i j ! k"
      using "1.IH" [OF refl j1 refl] l "1.prems" by (simp add: j_def down_child_def)
    also have "\<dots> = h ! k" using b "1.prems"(1) by (simp add: nth_nodes_Swap)
    finally show ?thesis using down_step [OF j1, of h] l by (simp add: j_def)
  qed
qed

lemma heap_root_min:
  "heap_upto h n \<Longrightarrow> k < n \<Longrightarrow> wt (h ! 0) \<le> wt (h ! k)"
proof (induction k rule: less_induct)
  case (less k)
  show ?case
  proof (cases "k = 0")
    case True
    then show ?thesis by simp
  next
    case False
    then have k: "0 < k" by simp
    then have pk: "parent k < k" by (rule parent_less)
    from less.IH [OF pk less.prems(1)] pk less.prems(2)
    have "wt (h ! 0) \<le> wt (h ! parent k)" by simp
    moreover from less.prems k have "wt (h ! parent k) \<le> wt (h ! k)"
      by (simp add: heap_upto_def)
    ultimately show ?thesis by simp
  qed
qed

lemma heap_Push_heap:
  assumes "heap_upto h (length h)"
  shows "heap_upto (heap_Push h x) (length (heap_Push h x))"
proof -
  have "up_inv (h @ [x]) (length h)"
    unfolding up_inv_def
  proof (intro conjI allI impI)
    fix k assume "0 < k \<and> k < length (h @ [x]) \<and> k \<noteq> length h"
    then have k: "0 < k" "k < length h" by simp_all
    from parent_less [OF k(1)] k(2) have "parent k < length h" by simp
    with k assms show "wt ((h @ [x]) ! parent k) \<le> wt ((h @ [x]) ! k)"
      by (simp add: nth_append heap_upto_def)
  next
    fix k assume a: "0 < k \<and> k < length (h @ [x]) \<and> parent k = length h \<and> 0 < length h"
    then have "parent k < k" using parent_less by blast
    with a have False by simp
    then show "wt ((h @ [x]) ! parent (length h)) \<le> wt ((h @ [x]) ! k)" ..
  qed
  from up_heap [OF _ this] show ?thesis by (simp add: heap_Push_def)
qed

lemma heap_Pop_heap:
  assumes ne: "h \<noteq> []" and hp: "heap_upto h (length h)" and pop: "heap_Pop h = (x, h')"
  shows "heap_upto h' (length h')" and "x = h ! 0" and "\<forall>y\<in>set h. wt x \<le> wt y"
proof -
  define n where "n = length h - 1"
  define h0 where "h0 = nodes_Swap h 0 n"
  define h1 where "h1 = down h0 0 n"
  from ne have n: "0 < length h" "n < length h" by (simp_all add: n_def)
  have sw: "h0 ! k = (if k = n then h ! 0 else if k = 0 then h ! n else h ! k)" for k
    unfolding h0_def by (rule nth_nodes_Swap [OF n])
  from pop have x: "x = last h1" and h': "h' = butlast h1"
    by (simp_all add: heap_Pop_def Let_def h1_def h0_def n_def)
  have len: "length h1 = length h" "length h0 = length h" by (simp_all add: h1_def h0_def)
  have "down_inv h0 0 n"
    unfolding down_inv_def
  proof (intro conjI allI impI)
    fix k assume a: "0 < k \<and> k < n \<and> parent k \<noteq> 0"
    then have k: "0 < k" "k < n" "parent k \<noteq> 0" by simp_all
    from parent_less [OF k(1)] k(2) have pk: "parent k < n" by simp
    from hp k n have "wt (h ! parent k) \<le> wt (h ! k)" by (simp add: heap_upto_def)
    with k pk show "wt (h0 ! parent k) \<le> wt (h0 ! k)" by (simp add: sw)
  next
    fix k assume "0 < k \<and> k < n \<and> parent k = 0 \<and> (0::nat) < 0"
    then show "wt (h0 ! parent 0) \<le> wt (h0 ! k)" by simp
  qed
  from down_heap [OF _ this] n have hu: "heap_upto h1 n" by (simp add: h1_def len)
  have ln: "length (butlast h1) = n" by (simp add: len n_def)
  show "heap_upto h' (length h')"
    unfolding h' heap_upto_def ln
  proof (intro allI impI)
    fix k assume a: "0 < k \<and> k < n"
    then have k: "0 < k" "k < n" by simp_all
    from parent_less [OF k(1)] k(2) have pk: "parent k < n" by simp
    from hu k have "wt (h1 ! parent k) \<le> wt (h1 ! k)" by (simp add: heap_upto_def)
    with k pk show "wt (butlast h1 ! parent k) \<le> wt (butlast h1 ! k)"
      by (simp add: nth_butlast len n_def)
  qed
  have "h1 \<noteq> []" using n len by (metis length_greater_0_conv)
  then have "last h1 = h1 ! n" by (simp add: last_conv_nth len n_def)
  also have "\<dots> = h0 ! n" unfolding h1_def using n by (intro down_beyond) (simp_all add: len)
  also have "\<dots> = h ! 0" by (simp add: sw)
  finally show x0: "x = h ! 0" using x by simp
  show "\<forall>y\<in>set h. wt x \<le> wt y"
  proof
    fix y assume "y \<in> set h"
    then obtain k where "k < length h" "y = h ! k" by (auto simp: in_set_conv_nth)
    with heap_root_min [OF hp this(1)] x0 show "wt x \<le> wt y" by simp
  qed
qed

lemma weight_expand [simp]: "weight (expand s a b t) = weight t"
  by (cases t) simp_all

lemma nodes_Less_map:
  assumes "\<And>x. weight (f x) = weight x" "i < length h" "j < length h"
  shows "nodes_Less (map f h) i j = nodes_Less h i j"
  using assms by (simp add: nodes_Less_def)

lemma nodes_Swap_map:
  assumes "i < length h" "j < length h"
  shows "nodes_Swap (map f h) i j = map f (nodes_Swap h i j)"
  using assms by (simp add: nodes_Swap_def map_update)

lemma up_map:
  assumes wp: "\<And>x. weight (f x) = weight x"
  shows "j < length h \<Longrightarrow> up (map f h) j = map f (up h j)"
proof (induction h j rule: up.induct)
  case (1 h j)
  have pj: "parent j < length h" using "1.prems" by (simp add: parent_def)
  note less = nodes_Less_map [of f, OF wp "1.prems" pj]
  show ?case
  proof (cases "parent j = j \<or> \<not> nodes_Less h j (parent j)")
    case True
    with less have "parent j = j \<or> \<not> nodes_Less (map f h) j (parent j)" by simp
    from up_stop [OF this] up_stop [OF True] show ?thesis by simp
  next
    case False
    with less have F': "\<not> (parent j = j \<or> \<not> nodes_Less (map f h) j (parent j))" by simp
    from False have F0: "\<not> ((j - 1) div 2 = j \<or> \<not> nodes_Less h j ((j - 1) div 2))"
      by (simp add: parent_def)
    have "up (map f h) j = up (nodes_Swap (map f h) (parent j) j) (parent j)"
      using F' by (subst up.simps) (simp add: parent_def Let_def)
    also have "\<dots> = up (map f (nodes_Swap h (parent j) j)) (parent j)"
      by (simp add: nodes_Swap_map [OF pj "1.prems"])
    also have "\<dots> = map f (up (nodes_Swap h (parent j) j) (parent j))"
      using "1.IH" [OF refl F0] pj by (simp add: parent_def)
    also have "up (nodes_Swap h (parent j) j) (parent j) = up h j"
      using False by (subst (2) up.simps) (simp add: parent_def Let_def)
    finally show ?thesis .
  qed
qed

lemma down_child_map:
  assumes wp: "\<And>x. weight (f x) = weight x" and "n \<le> length h" "\<not> n \<le> 2 * i + 1"
  shows "down_child (map f h) i n = down_child h i n"
proof -
  have "nodes_Less (map f h) (2 * i + 1 + 1) (2 * i + 1) = nodes_Less h (2 * i + 1 + 1) (2 * i + 1)"
    if "2 * i + 1 + 1 < n"
    using that assms(2) by (intro nodes_Less_map [of f, OF wp]) simp_all
  then show ?thesis by (auto simp: down_child_def)
qed

lemma down_map:
  assumes wp: "\<And>x. weight (f x) = weight x"
  shows "n \<le> length h \<Longrightarrow> down (map f h) i n = map f (down h i n)"
proof (induction h i n rule: down.induct)
  case (1 h i n)
  define j where "j = down_child h i n"
  show ?case
  proof (cases "n \<le> 2 * i + 1")
    case True
    then show ?thesis by (simp add: down_stop)
  next
    case j1: False
    from down_child_bounds [OF j1, of h] "1.prems" have b: "i < length h" "j < length h"
      by (auto simp: j_def)
    have dc: "down_child (map f h) i n = j"
      unfolding j_def by (rule down_child_map [of f, OF wp "1.prems" j1])
    have less: "nodes_Less (map f h) j i = nodes_Less h j i"
      by (rule nodes_Less_map [of f, OF wp b(2) b(1)])
    show ?thesis
    proof (cases "nodes_Less h j i")
      case False
      with less have "down (map f h) i n = map f h" by (simp add: down_stop dc)
      moreover from False have "down h i n = h" by (simp add: down_stop j_def)
      ultimately show ?thesis by simp
    next
      case True
      with less have "down (map f h) i n = down (nodes_Swap (map f h) i j) j n"
        using down_step [OF j1, of "map f h"] by (simp add: dc)
      also have "\<dots> = down (map f (nodes_Swap h i j)) j n"
        by (simp add: nodes_Swap_map [OF b])
      also have "\<dots> = map f (down (nodes_Swap h i j) j n)"
        using "1.IH" [OF refl j1 refl] True "1.prems" by (simp add: j_def down_child_def)
      also have "down (nodes_Swap h i j) j n = down h i n"
        using down_step [OF j1, of h] True by (simp add: j_def)
      finally show ?thesis .
    qed
  qed
qed

lemma heap_Push_map:
  assumes wp: "\<And>x. weight (f x) = weight x"
  shows "heap_Push (map f h) (f x) = map f (heap_Push h x)"
proof -
  have "up (map f (h @ [x])) (length h) = map f (up (h @ [x]) (length h))"
    by (rule up_map [of f, OF wp]) simp
  then show ?thesis by (simp add: heap_Push_def)
qed

lemma heap_Pop_map:
  assumes wp: "\<And>x. weight (f x) = weight x" and ne: "h \<noteq> []" and pop: "heap_Pop h = (x, h')"
  shows "heap_Pop (map f h) = (f x, map f h')"
proof -
  define n where "n = length h - 1"
  from ne have n: "0 < length h" "n < length h" by (simp_all add: n_def)
  have "down (nodes_Swap (map f h) 0 n) 0 n = down (map f (nodes_Swap h 0 n)) 0 n"
    by (simp add: nodes_Swap_map [OF n])
  also have "\<dots> = map f (down (nodes_Swap h 0 n) 0 n)"
    using n by (intro down_map [of f, OF wp]) simp
  finally have d: "down (nodes_Swap (map f h) 0 n) 0 n = map f (down (nodes_Swap h 0 n) 0 n)" .
  have "down (nodes_Swap h 0 n) 0 n \<noteq> []" using n by (metis length_down length_nodes_Swap length_greater_0_conv)
  moreover from pop have "x = last (down (nodes_Swap h 0 n) 0 n)" "h' = butlast (down (nodes_Swap h 0 n) 0 n)"
    by (simp_all add: heap_Pop_def Let_def n_def)
  moreover have "heap_Pop (map f h) = (last (down (nodes_Swap (map f h) 0 n) 0 n), butlast (down (nodes_Swap (map f h) 0 n) 0 n))"
    by (simp add: heap_Pop_def Let_def n_def)
  ultimately show ?thesis using d
    by (simp add: last_map map_butlast)
qed

lemma build_map:
  assumes wp: "\<And>x. weight (f x) = weight x"
    and inner: "\<And>w a b. f (Inner w a b) = Inner w (f a) (f b)"
  shows "build (map f h) = map f (build h)"
proof (induction h rule: build.induct)
  case (1 n)
  show ?case
  proof (cases "1 < length n")
    case False
    then show ?thesis by (simp add: build.simps)
  next
    case True
    obtain n1 h1 where p1: "heap_Pop n = (n1, h1)" by (cases "heap_Pop n")
    obtain n2 h2 where p2: "heap_Pop h1 = (n2, h2)" by (cases "heap_Pop h1")
    from True have ne: "n \<noteq> []" by auto
    from True p1 have l1: "length h1 = length n - 1" by (metis length_heap_Pop snd_conv)
    with True have ne1: "h1 \<noteq> []" by auto
    note q1 = heap_Pop_map [of f, OF wp ne p1]
    note q2 = heap_Pop_map [of f, OF wp ne1 p2]
    let ?x = "Inner (weight n1 + weight n2) n2 n1"
    have "build (map f n) = build (heap_Push (map f h2) (Inner (weight (f n1) + weight (f n2)) (f n2) (f n1)))"
      using True by (subst build.simps) (simp add: q1 q2)
    also have "Inner (weight (f n1) + weight (f n2)) (f n2) (f n1) = f ?x"
      by (simp add: wp inner)
    also have "heap_Push (map f h2) (f ?x) = map f (heap_Push h2 ?x)"
      by (rule heap_Push_map [of f, OF wp])
    also have "build (map f (heap_Push h2 ?x)) = map f (build (heap_Push h2 ?x))"
      using "1.IH" [OF True p1 [symmetric] refl p2 [symmetric] refl] .
    also have "build (heap_Push h2 ?x) = build n"
      using True by (subst (2) build.simps) (simp add: p1 p2)
    finally show ?thesis .
  qed
qed

lemma build_expand:
  "build (map (expand s a b) h) = map (expand s a b) (build h)"
  by (rule build_map) simp_all

lemma nd_root: "(t, d) \<in> set (nd t d)"
  by (cases t) simp_all

lemma nd_depth: "(u, d') \<in> set (nd t d) \<Longrightarrow> d \<le> d' \<and> (d' = d \<longrightarrow> u = t)"
  by (induction t arbitrary: d) fastforce+

lemma ld_nd: "(s, d') \<in> set (ld t d) \<longleftrightarrow> (\<exists>w. (Leaf w s, d') \<in> set (nd t d))"
  by (induction t arbitrary: d) auto

lemma leaves_nd: "x \<in> set (leaves t) \<Longrightarrow> \<exists>d'. (x, d') \<in> set (nd t d)"
  by (induction t arbitrary: d) fastforce+

lemma nd_leaves: "(Leaf w s, d') \<in> set (nd t d) \<Longrightarrow> Leaf w s \<in> set (leaves t)"
  by (induction t arbitrary: d) auto

lemma nd_lower:
  assumes "0 \<le> m"
  shows "wsum_ok t \<Longrightarrow> \<forall>x\<in>set (leaves t). m \<le> wt x \<Longrightarrow> (u, d') \<in> set (nd t d) \<Longrightarrow> m \<le> wt u"
proof (induction t arbitrary: d u d')
  case (Leaf w s)
  then show ?case by simp
next
  case (Inner w a b)
  from Inner.prems have ok: "wsum_ok a" "wsum_ok b" and w: "sint w = wt a + wt b"
    and la: "\<forall>x\<in>set (leaves a). m \<le> wt x" and lb: "\<forall>x\<in>set (leaves b). m \<le> wt x"
    by simp_all
  have "m \<le> wt a" by (rule Inner.IH(1) [OF ok(1) la nd_root])
  moreover have "m \<le> wt b" by (rule Inner.IH(2) [OF ok(2) lb nd_root])
  ultimately have "m \<le> wt (Inner w a b)" using w assms by (simp add: wt_def)
  with Inner.prems(3) Inner.IH(1) [OF ok(1) la] Inner.IH(2) [OF ok(2) lb]
  show ?case by auto
qed

lemma nd_parent:
  assumes m: "0 \<le> m"
  shows "wsum_ok t \<Longrightarrow> \<forall>x\<in>set (leaves t). m \<le> wt x \<Longrightarrow> (u, d') \<in> set (nd t d) \<Longrightarrow>
         d' = d \<or> (\<exists>p. (p, d' - 1) \<in> set (nd t d) \<and> wt u + m \<le> wt p \<and> d < d')"
proof (induction t arbitrary: d u d')
  case (Leaf w s)
  then show ?case by simp
next
  case (Inner w a b)
  from Inner.prems have ok: "wsum_ok a" "wsum_ok b" and w: "sint w = wt a + wt b"
    and la: "\<forall>x\<in>set (leaves a). m \<le> wt x" and lb: "\<forall>x\<in>set (leaves b). m \<le> wt x"
    by simp_all
  have ma: "m \<le> wt a" by (rule nd_lower [OF m ok(1) la nd_root])
  have mb: "m \<le> wt b" by (rule nd_lower [OF m ok(2) lb nd_root])
  from Inner.prems(3) consider "(u, d') = (Inner w a b, d)"
    | "(u, d') \<in> set (nd a (d + 1))" | "(u, d') \<in> set (nd b (d + 1))" by auto
  then show ?case
  proof cases
    case 1
    then show ?thesis by simp
  next
    case 2
    from Inner.IH(1) [OF ok(1) la 2] show ?thesis
    proof
      assume e: "d' = d + 1"
      with nd_depth [OF 2] have "u = a" by simp
      with e mb w have "(Inner w a b, d' - 1) \<in> set (nd (Inner w a b) d)
                        \<and> wt u + m \<le> wt (Inner w a b) \<and> d < d'"
        by (simp add: wt_def)
      then show ?thesis by blast
    next
      assume "\<exists>p. (p, d' - 1) \<in> set (nd a (d + 1)) \<and> wt u + m \<le> wt p \<and> d + 1 < d'"
      then obtain p where "(p, d' - 1) \<in> set (nd a (d + 1))" "wt u + m \<le> wt p" "d + 1 < d'"
        by blast
      then have "(p, d' - 1) \<in> set (nd (Inner w a b) d) \<and> wt u + m \<le> wt p \<and> d < d'"
        by simp
      then show ?thesis by blast
    qed
  next
    case 3
    from Inner.IH(2) [OF ok(2) lb 3] show ?thesis
    proof
      assume e: "d' = d + 1"
      with nd_depth [OF 3] have "u = b" by simp
      with e ma w have "(Inner w a b, d' - 1) \<in> set (nd (Inner w a b) d)
                        \<and> wt u + m \<le> wt (Inner w a b) \<and> d < d'"
        by (simp add: wt_def)
      then show ?thesis by blast
    next
      assume "\<exists>p. (p, d' - 1) \<in> set (nd b (d + 1)) \<and> wt u + m \<le> wt p \<and> d + 1 < d'"
      then obtain p where "(p, d' - 1) \<in> set (nd b (d + 1))" "wt u + m \<le> wt p" "d + 1 < d'"
        by blast
      then have "(p, d' - 1) \<in> set (nd (Inner w a b) d) \<and> wt u + m \<le> wt p \<and> d < d'"
        by simp
      then show ?thesis by blast
    qed
  qed
qed

lemma wt_expand [simp]: "wt (expand s a b t) = wt t"
  by (simp add: wt_def)

lemma wsum_ok_expand:
  "wsum_ok t \<Longrightarrow> \<forall>x\<in>set (leaves t). sym x = s \<longrightarrow> wt x = wt a + wt b \<Longrightarrow>
   wsum_ok a \<Longrightarrow> wsum_ok b \<Longrightarrow> wsum_ok (expand s a b t)"
  by (induction t) (auto simp: wt_def)

lemma leaves_expand:
  "mset (leaves (expand s a b t))
     = (\<Sum>x\<in>#mset (leaves t). if sym x = s then mset (leaves a) + mset (leaves b) else {#x#})"
  by (induction t) simp_all

lemma nd_expand:
  "(u, d') \<in> set (nd (expand s a b t) d) \<Longrightarrow>
   (\<exists>v. (v, d') \<in> set (nd t d) \<and> wt v = wt u)
   \<or> (\<exists>dc w. (Leaf w s, dc) \<in> set (nd t d)
         \<and> (u, d') \<in> set (nd a (dc + 1)) \<union> set (nd b (dc + 1)))"
proof (induction t arbitrary: d)
  case (Leaf w s')
  show ?case
  proof (cases "s' = s")
    case True
    with Leaf show ?thesis by (auto simp: wt_def)
  next
    case False
    with Leaf show ?thesis by auto
  qed
next
  case (Inner w l r)
  from Inner.prems consider "(u, d') = (Inner w (expand s a b l) (expand s a b r), d)"
    | "(u, d') \<in> set (nd (expand s a b l) (d + 1))"
    | "(u, d') \<in> set (nd (expand s a b r) (d + 1))" by auto
  then show ?case
  proof cases
    case 1
    then have "(Inner w l r, d') \<in> set (nd (Inner w l r) d) \<and> wt (Inner w l r) = wt u"
      by (auto simp: wt_def)
    then show ?thesis by blast
  next
    case 2
    from Inner.IH(1) [OF 2] show ?thesis by (elim disjE exE conjE) (simp; blast)+
  next
    case 3
    from Inner.IH(2) [OF 3] show ?thesis by (elim disjE exE conjE) (simp; blast)+
  qed
qed

lemma nd_leaf_unique:
  "distinct (map sym (leaves t)) \<Longrightarrow> (Leaf w s, d1) \<in> set (nd t d) \<Longrightarrow>
   (Leaf w' s, d2) \<in> set (nd t d) \<Longrightarrow> d1 = d2"
proof -
  assume dist: "distinct (map sym (leaves t))" and a: "(Leaf w s, d1) \<in> set (nd t d)"
    and b: "(Leaf w' s, d2) \<in> set (nd t d)"
  from dist have "distinct (map fst (ld t d))" by (simp add: map_fst_ld)
  moreover from a b have "(s, d1) \<in> set (ld t d)" "(s, d2) \<in> set (ld t d)"
    by (auto simp: ld_nd)
  ultimately show "d1 = d2" by (meson eq_key_imp_eq_value)
qed

lemma MonoD:
  "Mono t \<Longrightarrow> (u, du) \<in> set (nd t 0) \<Longrightarrow> (v, dv) \<in> set (nd t 0) \<Longrightarrow> wt v < wt u \<Longrightarrow> du \<le> dv"
  unfolding Mono_def by fastforce

lemma MonoI:
  "(\<And>u du v dv. (u, du) \<in> set (nd t 0) \<Longrightarrow> (v, dv) \<in> set (nd t 0) \<Longrightarrow> wt v < wt u \<Longrightarrow> du \<le> dv)
   \<Longrightarrow> Mono t"
  unfolding Mono_def by auto

lemma sint_add_nonneg:
  fixes a b :: u64
  assumes "0 \<le> sint a" "0 \<le> sint b" "sint a + sint b < 2 ^ 63"
  shows "sint (a + b) = sint a + sint b"
proof -
  have "sint (a + b) = signed_take_bit 63 (sint a + sint b)"
    by (simp add: sint_word_ariths)
  also have "\<dots> = sint a + sint b"
    using assms by (intro signed_take_bit_int_eq_self) simp_all
  finally show ?thesis .
qed

lemma sum_wt_mset: "mset h = mset h' \<Longrightarrow> sum_list (map wt h) = sum_list (map wt h')"
  by (metis mset_map sum_mset_sum_list)

lemma mset_map_add:
  "mset h = add_mset x M \<Longrightarrow> mset (map f h) = add_mset (f x) (image_mset f M)"
  by (metis image_mset_add_mset mset_map)

lemma sum_singletons: "(\<Sum>x\<in>#M. {#x#}) = M"
  by simp

lemma build_Mono:
  assumes "h \<noteq> []" "\<forall>x\<in>set h. \<exists>w s. x = Leaf w s" "distinct (map sym h)"
    "\<forall>x\<in>set h. 0 \<le> wt x" "sum_list (map wt h) < 2 ^ 63" "heap_upto h (length h)"
  shows "\<exists>t. build h = [t] \<and> Mono t \<and> wsum_ok t \<and> mset (leaves t) = mset h"
  using assms
proof (induction "length h" arbitrary: h rule: less_induct)
  case less
  note ne = less.prems(1) and lf = less.prems(2) and dist = less.prems(3)
    and nonneg = less.prems(4) and total = less.prems(5) and hp = less.prems(6)
  show ?case
  proof (cases "1 < length h")
    case False
    with ne obtain t where h: "h = [t]" by (cases h) (auto simp: not_less)
    with lf obtain w s where t: "t = Leaf w s" by auto
    show ?thesis by (simp add: h t build.simps Mono_def)
  next
    case True
    obtain n1 h1 where p1: "heap_Pop h = (n1, h1)" by (cases "heap_Pop h")
    obtain n2 h2 where p2: "heap_Pop h1 = (n2, h2)" by (cases "heap_Pop h1")
    from True p1 have l1: "length h1 = length h - 1" by (metis length_heap_Pop snd_conv)
    with True have ne1: "h1 \<noteq> []" by auto
    from p2 have l2: "length h2 = length h1 - 1" by (metis length_heap_Pop snd_conv)
    note hp1 = heap_Pop_heap(1) [OF ne hp p1] and min1 = heap_Pop_heap(3) [OF ne hp p1]
    note hp2 = heap_Pop_heap(1) [OF ne1 hp1 p2] and min2 = heap_Pop_heap(3) [OF ne1 hp1 p2]
    note m1 = mset_heap_Pop [OF ne p1] and m2 = mset_heap_Pop [OF ne1 p2]
    from m1 m2 have mh: "mset h = add_mset n1 (add_mset n2 (mset h2))" by simp
    have sh1: "set h1 = insert n2 (set h2)"
      using m2 by (metis set_mset_add_mset_insert set_mset_mset)
    have sh: "set h = insert n1 (insert n2 (set h2))"
      using mh by (metis set_mset_add_mset_insert set_mset_mset)
    from lf sh obtain w1 s1 where n1: "n1 = Leaf w1 s1" by auto
    from lf sh obtain w2 s2 where n2: "n2 = Leaf w2 s2" by auto
    have "mset (map sym h) = mset (s1 # s2 # map sym h2)"
      using mset_map_add [OF mh, of sym] by (simp add: n1 n2)
    from mset_eq_imp_distinct_iff [OF this] dist
    have d2: "distinct (s1 # s2 # map sym h2)" by simp
    then have fresh: "\<forall>x\<in>set h2. sym x \<noteq> s1" by auto
    have "sum_list (map wt h) = sum_list (map wt (n1 # n2 # h2))"
      by (rule sum_wt_mset) (simp add: mh)
    then have tot: "sum_list (map wt h) = wt n1 + wt n2 + sum_list (map wt h2)" by simp
    have "0 \<le> sum_list (map wt h2)"
      using nonneg sh by (intro sum_list_nonneg) auto
    with tot total have small: "wt n1 + wt n2 < 2 ^ 63" by simp
    from nonneg sh have nn: "0 \<le> wt n1" "0 \<le> wt n2" by simp_all
    have wc: "sint (w1 + w2) = wt n1 + wt n2"
      using nn small unfolding n1 n2 wt_def by (simp add: sint_add_nonneg)
    from min1 sh have le12: "wt n1 \<le> wt n2" by simp
    define c where "c = Leaf (w1 + w2) s1"
    define f where "f = expand s1 n2 n1"
    define g where "g = heap_Push h2 c"
    have wtc: "wt c = wt n1 + wt n2" by (simp add: c_def wt_def wc)
    have fc: "f c = Inner (weight n1 + weight n2) n2 n1"
      by (simp add: f_def c_def n1 n2)
    have "f x = x" if "x \<in> set h2" for x
    proof -
      from that lf sh obtain w s where "x = Leaf w s" by auto
      with fresh that show ?thesis by (auto simp: f_def)
    qed
    then have fh2: "map f h2 = h2" by (simp add: map_idI)
    have "build h = build (heap_Push h2 (Inner (weight n1 + weight n2) n2 n1))"
      using True by (subst build.simps) (simp add: p1 p2)
    also have "heap_Push h2 (Inner (weight n1 + weight n2) n2 n1) = heap_Push (map f h2) (f c)"
      by (simp add: fh2 fc)
    also have "\<dots> = map f g"
      unfolding g_def f_def by (rule heap_Push_map) simp
    also have "build (map f g) = map f (build g)"
      unfolding f_def by (rule build_expand)
    finally have bh: "build h = map f (build g)" .
    have mg: "mset g = add_mset c (mset h2)" by (simp add: g_def mset_heap_Push)
    have sg: "set g = insert c (set h2)"
      using mg by (metis set_mset_add_mset_insert set_mset_mset)
    have lg: "length g < length h" using True l1 l2 by (simp add: g_def)
    have g1: "g \<noteq> []" by (metis g_def length_heap_Push list.size(3) nat.distinct(1))
    have g2: "\<forall>x\<in>set g. \<exists>w s. x = Leaf w s" using lf sh sg by (auto simp: c_def)
    have "mset (map sym g) = mset (s1 # map sym h2)"
      using mset_map_add [OF mg, of sym] by (simp add: c_def)
    from mset_eq_imp_distinct_iff [OF this] d2
    have g3: "distinct (map sym g)" by simp
    have g4: "\<forall>x\<in>set g. 0 \<le> wt x" using nonneg sh sg nn wtc by auto
    have "sum_list (map wt g) = sum_list (map wt (c # h2))"
      by (rule sum_wt_mset) (simp add: mg)
    with tot total wtc have g5: "sum_list (map wt g) < 2 ^ 63" by simp
    have g6: "heap_upto g (length g)" unfolding g_def by (rule heap_Push_heap [OF hp2])
    from less.hyps [OF lg g1 g2 g3 g4 g5 g6] obtain T where
      bg: "build g = [T]" and monoT: "Mono T" and okT: "wsum_ok T"
      and lT: "mset (leaves T) = mset g" by blast
    from lT have sT: "set (leaves T) = insert c (set h2)"
      using sg by (metis set_mset_mset)
    have r1: "build h = [f T]" by (simp add: bh bg)
    have r2: "wsum_ok (f T)"
      unfolding f_def
    proof (rule wsum_ok_expand [OF okT])
      show "\<forall>x\<in>set (leaves T). sym x = s1 \<longrightarrow> wt x = wt n2 + wt n1"
        using sT fresh wtc by auto
    qed (simp_all add: n1 n2)
    have "(\<Sum>x\<in>#mset h2. if sym x = s1 then mset (leaves n2) + mset (leaves n1) else {#x#})
            = (\<Sum>x\<in>#mset h2. {#x#})"
      using fresh by (intro arg_cong [where f = sum_mset] image_mset_cong) simp
    then have e1: "(\<Sum>x\<in>#mset h2. if sym x = s1 then mset (leaves n2) + mset (leaves n1) else {#x#})
            = mset h2" by simp
    have "mset (leaves (f T)) = mset (leaves n2) + mset (leaves n1) + mset h2"
      by (simp add: f_def leaves_expand lT mg c_def e1)
    also have "\<dots> = mset h" by (simp add: mh n1 n2)
    finally have r3: "mset (leaves (f T)) = mset h" .
    define m where "m = wt n2"
    have m0: "0 \<le> m" by (simp add: m_def nn)
    have low: "\<forall>x\<in>set (leaves T). m \<le> wt x"
      using sT min2 sh1 wtc nn by (auto simp: m_def)
    have "c \<in> set (leaves T)" by (simp add: sT)
    from leaves_nd [OF this] obtain dc where dc: "(c, dc) \<in> set (nd T 0)" by blast
    have "mset (map sym (leaves T)) = mset (map sym g)"
      using lT by (metis mset_map)
    from mset_eq_imp_distinct_iff [OF this] g3
    have dT: "distinct (map sym (leaves T))" by simp
    have cls: "(\<exists>v. (v, d') \<in> set (nd T 0) \<and> wt v = wt u)
               \<or> (d' = dc + 1 \<and> wt n1 \<le> wt u \<and> wt u \<le> m)"
      if "(u, d') \<in> set (nd (f T) 0)" for u d'
    proof -
      from nd_expand [OF that [unfolded f_def]] show ?thesis
      proof
        assume "\<exists>v. (v, d') \<in> set (nd T 0) \<and> wt v = wt u"
        then show ?thesis ..
      next
        assume "\<exists>dc' w. (Leaf w s1, dc') \<in> set (nd T 0)
                  \<and> (u, d') \<in> set (nd n2 (dc' + 1)) \<union> set (nd n1 (dc' + 1))"
        then obtain dc' w where a: "(Leaf w s1, dc') \<in> set (nd T 0)"
          and b: "(u, d') \<in> set (nd n2 (dc' + 1)) \<union> set (nd n1 (dc' + 1))" by blast
        from nd_leaf_unique [OF dT a dc [unfolded c_def]] have "dc' = dc" .
        with b le12 show ?thesis by (auto simp: n1 n2 m_def)
      qed
    qed
    have r4: "Mono (f T)"
    proof (rule MonoI)
      fix u du v dv
      assume u: "(u, du) \<in> set (nd (f T) 0)" and v: "(v, dv) \<in> set (nd (f T) 0)"
        and less: "wt v < wt u"
      from cls [OF u] show "du \<le> dv"
      proof (elim disjE exE conjE)
        fix u' assume u': "(u', du) \<in> set (nd T 0)" "wt u' = wt u"
        from cls [OF v] show ?thesis
        proof (elim disjE exE conjE)
          fix v' assume v': "(v', dv) \<in> set (nd T 0)" "wt v' = wt v"
          with u' less show ?thesis by (intro MonoD [OF monoT u'(1) v'(1)]) simp
        next
          assume vn: "dv = dc + 1" "wt n1 \<le> wt v" "wt v \<le> m"
          from nd_parent [OF m0 okT low u'(1)] show ?thesis
          proof (elim disjE exE conjE)
            assume "du = 0"
            then show ?thesis by simp
          next
            fix p assume p: "(p, du - 1) \<in> set (nd T 0)" "wt u' + m \<le> wt p" "0 < du"
            from p(2) u'(2) less vn(2) have "wt c < wt p" by (simp add: wtc m_def)
            from MonoD [OF monoT p(1) dc this] vn(1) show ?thesis by simp
          qed
        qed
      next
        assume un: "du = dc + 1" "wt n1 \<le> wt u" "wt u \<le> m"
        from cls [OF v] show ?thesis
        proof (elim disjE exE conjE)
          fix v' assume v': "(v', dv) \<in> set (nd T 0)" "wt v' = wt v"
          from nd_lower [OF m0 okT low v'(1)] v'(2) un(3) less show ?thesis by simp
        next
          assume "dv = dc + 1"
          with un(1) show ?thesis by simp
        qed
      qed
    qed
    from r1 r2 r3 r4 show ?thesis by blast
  qed
qed

lemma push_counts_heap:
  "heap_upto n (length n) \<Longrightarrow> heap_upto (push_counts i counts n) (length (push_counts i counts n))"
proof (induction counts arbitrary: i n)
  case Nil
  then show ?case by simp
next
  case (Cons v vs)
  show ?case
  proof (cases "v = 0")
    case True
    with Cons.IH [OF Cons.prems] show ?thesis by simp
  next
    case False
    from Cons.IH [OF heap_Push_heap [OF Cons.prems]] False show ?thesis by simp
  qed
qed

lemma sum_wt_count_leaves:
  "sum_list (map wt (count_leaves i counts)) = sum_list (map sint counts)"
  by (induction counts arbitrary: i) (simp_all add: wt_def)

lemma huff_tree_Mono:
  assumes len: "length counts < 2 ^ 32"
    and nonneg: "\<forall>v\<in>set counts. 0 \<le> sint v"
    and total: "sum_list (map sint counts) < 2 ^ 63"
  shows "Mono (huff_tree counts)"
proof -
  define eof where "eof = Leaf 0 (of_nat (length counts))"
  define h where "h = heap_Push (push_counts 0 counts []) eof"
  have mh: "mset h = add_mset eof (mset (count_leaves 0 counts))"
    by (simp add: h_def mset_heap_Push mset_push_counts)
  then have sh: "set h = insert eof (set (count_leaves 0 counts))"
    by (metis set_mset_add_mset_insert set_mset_mset)
  have h1: "h \<noteq> []" by (metis h_def length_heap_Push list.size(3) nat.distinct(1))
  have h2: "\<forall>x\<in>set h. \<exists>w s. x = Leaf w s"
    by (auto simp: sh eof_def count_leaves_elem)
  have "mset (map sym h) = mset (map sym (leaves (huff_tree counts)))"
    using mh huff_tree_leaves [of counts] by (metis eof_def mset_map)
  from mset_eq_imp_distinct_iff [OF this] distinct_huff_syms [OF len]
  have h3: "distinct (map sym h)" by simp
  have h4: "\<forall>x\<in>set h. 0 \<le> wt x"
    using nonneg by (auto simp: sh eof_def count_leaves_elem wt_def)
  have "sum_list (map wt h) = sum_list (map wt (eof # count_leaves 0 counts))"
    by (rule sum_wt_mset) (simp add: mh)
  with total have h5: "sum_list (map wt h) < 2 ^ 63"
    by (simp add: sum_wt_count_leaves eof_def wt_def)
  have "heap_upto (push_counts 0 counts []) (length (push_counts 0 counts []))"
    by (rule push_counts_heap) (simp add: heap_upto_def)
  then have h6: "heap_upto h (length h)" unfolding h_def by (rule heap_Push_heap)
  from build_Mono [OF h1 h2 h3 h4 h5 h6] obtain t where "build h = [t]" "Mono t" by blast
  moreover have "build h = [huff_tree counts]"
    unfolding h_def eof_def by (rule build_huff_tree)
  ultimately show ?thesis by simp
qed

lemma walked_depth:
  assumes len: "length counts < 2 ^ 32 - 1" and k: "k < length counts" "counts ! k \<noteq> 0"
  shows "\<exists>d. (Leaf (counts ! k) (of_nat k), d) \<in> set (nd (huff_tree counts) 0)
             \<and> symbol_length (walked counts ! k) = int d"
proof -
  from k have nz: "\<exists>v\<in>set counts. v \<noteq> 0" by (metis nth_mem)
  from k have "Leaf (counts ! k) (of_nat k) \<in> set (count_leaves 0 counts)"
    by (auto simp: count_leaves_elem)
  then have "Leaf (counts ! k) (of_nat k) \<in> set (leaves (huff_tree counts))"
    by (simp add: set_huff_leaves)
  from leaves_nd [OF this] obtain d where
    d: "(Leaf (counts ! k) (of_nat k), d) \<in> set (nd (huff_tree counts) 0)" by blast
  then have "(of_nat k, d) \<in> set (ld (huff_tree counts) 0)" by (auto simp: ld_nd)
  from walked_leaf [OF len nz this]
  have "walked counts ! unat (of_nat k :: u32)
          = \<lparr>symbol_s = of_nat k, symbol_code = 0, symbol_length = int d\<rparr>" by simp
  moreover have "unat (of_nat k :: u32) = k"
    using len k(1) by (intro unat_of_nat32) simp
  ultimately have "symbol_length (walked counts ! k) = int d" by simp
  with d show ?thesis by blast
qed

lemma SymbolLen_slot:
  assumes "unat s < length (e_m e)" "length (e_m e) < 2 ^ 32"
  shows "SymbolLen e s = symbol_length (e_m e ! unat s)"
proof -
  from assms have "s \<noteq> EOF"
    by (auto simp: EOF_def)
  moreover have "\<not> (of_nat (length (e_m e)) :: u32) \<le> s"
    using assms by (simp add: word_le_nat_alt unat_of_nat32)
  ultimately show ?thesis by (simp add: SymbolLen_def)
qed




end
